theory Spec2Isabelle
  imports Main
begin

section \<open>JavaScript values\<close>

text \<open>
  The engine of \<^verbatim>\<open>packages/sdk/src/index.ts\<close> works on plain JavaScript values. A string is a
  list of characters, each standing for one UTF-16 code unit below 256. A number is modelled by
  an integer (the numbers without a fractional part, in the range where a double is exact). An
  object is the list of its own enumerable properties in the order \<^verbatim>\<open>Object.entries\<close>
  enumerates them.
\<close>

datatype jsval =
    Undefined
  | Null
  | Bool bool
  | Num int
  | Str string
  | Arr "jsval list"
  | Obj "(string \<times> jsval) list"

type_synonym obj = "(string \<times> jsval) list"

subsection \<open>White space, trimming and splitting\<close>

text \<open>
  The characters of the regular expression class \<^verbatim>\<open>\s\<close>, which are also the ones
  \<^verbatim>\<open>String.prototype.trim\<close> strips: tab, line feed, vertical tab, form feed, carriage
  return, space and the no-break space (the members below code unit 256).
\<close>

definition is_ws :: "char \<Rightarrow> bool" where
  "is_ws c = ((of_char c :: nat) \<in> {9, 10, 11, 12, 13, 32, 160})"

definition trim :: "string \<Rightarrow> string" where
  "trim s = rev (dropWhile is_ws (rev (dropWhile is_ws s)))"

text \<open>
  \<^verbatim>\<open>s.split(/\s+/)\<close>: the pieces between the maximal runs of white space. The empty string
  gives one empty piece; a run at the start or at the end gives an empty piece there.
\<close>

function split_ws :: "string \<Rightarrow> string list" where
  "split_ws s =
     (let piece = takeWhile (\<lambda>c. \<not> is_ws c) s;
          rest = dropWhile (\<lambda>c. \<not> is_ws c) s
      in if rest = [] then [piece] else piece # split_ws (dropWhile is_ws rest))"
  by pat_completeness auto
termination
proof (relation "measure length")
  show "wf (measure length)" by simp
next
  fix s :: string and piece rest
  assume r: "rest = dropWhile (\<lambda>c. \<not> is_ws c) s" and ne: "rest \<noteq> []"
  from ne obtain c cs where rc: "rest = c # cs" by (cases rest) auto
  have "is_ws c" using r rc by (metis hd_dropWhile list.sel(1) ne)
  then have "length (dropWhile is_ws rest) \<le> length cs"
    using rc by (simp add: length_dropWhile_le)
  moreover have "length rest \<le> length s"
    using r by (simp add: length_dropWhile_le)
  ultimately show "(dropWhile is_ws rest, s) \<in> measure length"
    using rc by simp
qed

declare split_ws.simps [simp del]

text \<open>\<^verbatim>\<open>payload.trim().split(/\s+/).filter(Boolean).length\<close>: the empty pieces are falsy.\<close>

definition countWords :: "string \<Rightarrow> nat" where
  "countWords s = length (filter (\<lambda>p. p \<noteq> []) (split_ws (trim s)))"

subsection \<open>\<^verbatim>\<open>countWordsInRecord\<close>\<close>

text \<open>
  Arrays and objects sum over their items and values, a string counts its words, and every
  other value counts zero.
\<close>

fun countWordsInRecord :: "jsval \<Rightarrow> nat" where
  "countWordsInRecord (Arr items) = foldl (\<lambda>acc item. acc + countWordsInRecord item) 0 items"
| "countWordsInRecord (Obj props) =
     foldl (\<lambda>acc item. acc + countWordsInRecord item) 0 (map snd props)"
| "countWordsInRecord (Str s) = countWords s"
| "countWordsInRecord _ = 0"

section \<open>Objects\<close>

text \<open>
  An ordinary object enumerates its own string keys in two groups: first the keys that are
  array indices (canonical decimal numerals below \<open>2^32 - 1\<close>) in ascending numeric order, then
  all other keys in the order of their creation.
\<close>

definition is_digit :: "char \<Rightarrow> bool" where
  "is_digit c = (48 \<le> (of_char c :: nat) \<and> (of_char c :: nat) \<le> 57)"

definition digit_of :: "char \<Rightarrow> nat" where
  "digit_of c = of_char c - 48"

definition dec_value :: "string \<Rightarrow> nat" where
  "dec_value s = foldl (\<lambda>n c. 10 * n + digit_of c) 0 s"

definition array_index :: "string \<Rightarrow> nat option" where
  "array_index k =
     (if k \<noteq> [] \<and> list_all is_digit k \<and> (k = ''0'' \<or> hd k \<noteq> CHR ''0'')
         \<and> dec_value k < 2 ^ 32 - 1
      then Some (dec_value k) else None)"

text \<open>Whether an existing key stays in front of a new array index \<open>n\<close>.\<close>

definition stays_before :: "nat \<Rightarrow> string \<Rightarrow> bool" where
  "stays_before n k = (case array_index k of Some m \<Rightarrow> m < n | None \<Rightarrow> False)"

text \<open>
  The assignment \<^verbatim>\<open>o[k] = v\<close> on an ordinary object. The key \<^verbatim>\<open>__proto__\<close> reaches the
  inherited setter and creates no property. An existing property keeps its place; a new array
  index is placed among the indices; any other new key goes to the end.
\<close>

definition obj_set :: "obj \<Rightarrow> string \<Rightarrow> jsval \<Rightarrow> obj" where
  "obj_set ob k v =
     (if k = ''__proto__'' then ob
      else if k \<in> fst ` set ob then map (\<lambda>(k', v'). if k' = k then (k', v) else (k', v')) ob
      else (case array_index k of
              None \<Rightarrow> ob @ [(k, v)]
            | Some n \<Rightarrow> takeWhile (\<lambda>(k', _). stays_before n k') ob @ [(k, v)]
                        @ dropWhile (\<lambda>(k', _). stays_before n k') ob))"

text \<open>The order of two keys in the enumeration of one object.\<close>

definition key_precedes :: "string \<Rightarrow> string \<Rightarrow> bool" where
  "key_precedes a b =
     (case array_index a of
        Some m \<Rightarrow> (case array_index b of Some n \<Rightarrow> m < n | None \<Rightarrow> True)
      | None \<Rightarrow> array_index b = None)"

text \<open>
  The entries of a record as \<^verbatim>\<open>payloadSchema.parse\<close> returns it (\<^verbatim>\<open>Z.record(Z.string(),
  Z.any())\<close>): an ordinary object, so its keys are distinct and enumerated in property order,
  and \<^verbatim>\<open>__proto__\<close> is not among its own keys.
\<close>

definition record_entries :: "obj \<Rightarrow> bool" where
  "record_entries ob =
     (distinct (map fst ob) \<and> sorted_wrt key_precedes (map fst ob)
      \<and> ''__proto__'' \<notin> set (map fst ob))"

section \<open>The engine's configuration\<close>

text \<open>
  \<^verbatim>\<open>engineParamsSchema\<close>: \<^verbatim>\<open>batchSize\<close> is an integer in \<open>1..250\<close> and
  \<^verbatim>\<open>idealBatchItemSize\<close> an integer in \<open>1..2500\<close>.
\<close>

record config =
  apiKey :: string
  apiUrl :: string
  batchSize :: nat
  idealBatchItemSize :: nat

definition engineParamsSchema :: "config \<Rightarrow> bool" where
  "engineParamsSchema cfg =
     (0 < batchSize cfg \<and> batchSize cfg \<le> 250
      \<and> 0 < idealBatchItemSize cfg \<and> idealBatchItemSize cfg \<le> 2500)"

section \<open>\<^verbatim>\<open>extractPayloadChunks\<close>\<close>

text \<open>
  The loop over \<^verbatim>\<open>Object.entries(payload)\<close>, with the entries still to visit, the chunks
  pushed so far, the current chunk and its item count. The test \<^verbatim>\<open>i === length - 1\<close> holds
  when no entry is left after the current one.
\<close>

fun chunk_loop :: "config \<Rightarrow> obj \<Rightarrow> obj list \<Rightarrow> obj \<Rightarrow> nat \<Rightarrow> obj list" where
  "chunk_loop cfg [] result currentChunk currentChunkItemCount = result"
| "chunk_loop cfg ((key, v) # rest) result currentChunk currentChunkItemCount =
     (let currentChunk' = obj_set currentChunk key v;
          currentChunkItemCount' = currentChunkItemCount + 1;
          currentChunkSize = countWordsInRecord (Obj currentChunk')
      in if currentChunkSize > idealBatchItemSize cfg
            \<or> currentChunkItemCount' \<ge> batchSize cfg
            \<or> rest = []
         then chunk_loop cfg rest (result @ [currentChunk']) [] 0
         else chunk_loop cfg rest result currentChunk' currentChunkItemCount')"

definition extractPayloadChunks :: "config \<Rightarrow> obj \<Rightarrow> obj list" where
  "extractPayloadChunks cfg payload = chunk_loop cfg payload [] [] 0"

section \<open>Numerals, splitting and \<^verbatim>\<open>parseInt\<close>\<close>

text \<open>The decimal numeral of a natural number, as \<^verbatim>\<open>String(n)\<close> and \<^verbatim>\<open>join\<close> print an index.\<close>

definition digit_char :: "nat \<Rightarrow> char" where
  "digit_char d = char_of (48 + d)"

function show_nat :: "nat \<Rightarrow> string" where
  "show_nat n = (if n < 10 then [digit_char n] else show_nat (n div 10) @ [digit_char (n mod 10)])"
  by pat_completeness auto
termination
  by (relation "measure id") auto

declare show_nat.simps [simp del]

definition show_int :: "int \<Rightarrow> string" where
  "show_int i = (if i < 0 then CHR ''-'' # show_nat (nat (- i)) else show_nat (nat i))"

text \<open>\<^verbatim>\<open>s.split(c)\<close> for a separator of one character.\<close>

fun split_on :: "char \<Rightarrow> string \<Rightarrow> string list" where
  "split_on c [] = [[]]"
| "split_on c (x # xs) =
     (if x = c then [] # split_on c xs
      else (case split_on c xs of [] \<Rightarrow> [[x]] | p # ps \<Rightarrow> (x # p) # ps))"

text \<open>\<^verbatim>\<open>xs.join(sep)\<close> on a list of strings.\<close>

fun join :: "string \<Rightarrow> string list \<Rightarrow> string" where
  "join sep [] = []"
| "join sep [x] = x"
| "join sep (x # y # ys) = x @ sep @ join sep (y # ys)"

text \<open>\<^verbatim>\<open>s.includes(t)\<close>: \<open>t\<close> occurs in \<open>s\<close> as a contiguous substring.\<close>

fun includes_str :: "string \<Rightarrow> string \<Rightarrow> bool" where
  "includes_str [] t = (t = [])"
| "includes_str (c # cs) t = (take (length t) (c # cs) = t \<or> includes_str cs t)"

text \<open>
  \<^verbatim>\<open>parseInt(s)\<close> without a radix: leading white space is skipped, a sign is read, the prefix
  \<^verbatim>\<open>0x\<close> selects radix 16, and the longest run of digits is the value; no digit gives
  \<^verbatim>\<open>NaN\<close>, modelled by \<open>None\<close>. The value is exact here, where the code uses it only as
  an index into an array.
\<close>

definition hex_digit_of :: "char \<Rightarrow> nat option" where
  "hex_digit_of c =
     (let n = (of_char c :: nat) in
      if 48 \<le> n \<and> n \<le> 57 then Some (n - 48)
      else if 97 \<le> n \<and> n \<le> 102 then Some (n - 87)
      else if 65 \<le> n \<and> n \<le> 70 then Some (n - 55)
      else None)"

definition radix_digit :: "nat \<Rightarrow> char \<Rightarrow> bool" where
  "radix_digit r c = (case hex_digit_of c of Some d \<Rightarrow> d < r | None \<Rightarrow> False)"

definition radix_value :: "nat \<Rightarrow> string \<Rightarrow> nat" where
  "radix_value r s = foldl (\<lambda>n c. r * n + the (hex_digit_of c)) 0 s"

definition parseInt :: "string \<Rightarrow> int option" where
  "parseInt s =
     (let s1 = dropWhile is_ws s;
          negative = (s1 \<noteq> [] \<and> hd s1 = CHR ''-'');
          s2 = (if s1 \<noteq> [] \<and> (hd s1 = CHR ''-'' \<or> hd s1 = CHR ''+'') then tl s1 else s1);
          hex = (take 2 s2 = ''0x'' \<or> take 2 s2 = ''0X'');
          r = (if hex then 16 else 10);
          s3 = (if hex then drop 2 s2 else s2);
          z = takeWhile (radix_digit r) s3
      in if z = [] then None
         else Some (if negative then - int (radix_value r z) else int (radix_value r z)))"

text \<open>
  \<^verbatim>\<open>parseInt(x)\<close> where \<open>x\<close> may be \<^verbatim>\<open>undefined\<close>: the string \<^verbatim>\<open>"undefined"\<close> has no
  digit.
\<close>

definition parseInt_opt :: "string option \<Rightarrow> int option" where
  "parseInt_opt x = (case x of None \<Rightarrow> None | Some s \<Rightarrow> parseInt s)"

text \<open>
  \<^verbatim>\<open>xs[n]\<close> on an array: \<^verbatim>\<open>undefined\<close> (\<open>None\<close>) for \<^verbatim>\<open>NaN\<close>, a negative number or a
  number from the length on.
\<close>

definition js_nth :: "'a list \<Rightarrow> int option \<Rightarrow> 'a option" where
  "js_nth xs n =
     (case n of
        None \<Rightarrow> None
      | Some i \<Rightarrow> if 0 \<le> i \<and> nat i < length xs then Some (xs ! nat i) else None)"

text \<open>\<^verbatim>\<open>xs[i]\<close> for a constant index \<open>i\<close>.\<close>

definition nth_opt :: "'a list \<Rightarrow> nat \<Rightarrow> 'a option" where
  "nth_opt xs i = (if i < length xs then Some (xs ! i) else None)"

section \<open>Truthiness, conversion to a string, property access\<close>

fun truthy :: "jsval \<Rightarrow> bool" where
  "truthy Undefined = False"
| "truthy Null = False"
| "truthy (Bool b) = b"
| "truthy (Num n) = (n \<noteq> 0)"
| "truthy (Str s) = (s \<noteq> [])"
| "truthy (Arr xs) = True"
| "truthy (Obj ps) = True"

text \<open>
  \<^verbatim>\<open>String(v)\<close>: an array joins the strings of its items with commas, where
  \<^verbatim>\<open>undefined\<close> and \<^verbatim>\<open>null\<close> items give the empty string; a plain object gives
  \<^verbatim>\<open>[object Object]\<close>.
\<close>

fun toString :: "jsval \<Rightarrow> string" where
  "toString Undefined = ''undefined''"
| "toString Null = ''null''"
| "toString (Bool b) = (if b then ''true'' else ''false'')"
| "toString (Num n) = show_int n"
| "toString (Str s) = s"
| "toString (Arr xs) =
     join '','' (map (\<lambda>x. if x = Undefined \<or> x = Null then [] else toString x) xs)"
| "toString (Obj ps) = ''[object Object]''"

section \<open>Errors\<close>

text \<open>A thrown error with its \<^verbatim>\<open>name\<close> and \<^verbatim>\<open>message\<close>.\<close>

datatype js_error = JsError (err_name: string) (err_message: string)

text \<open>\<^verbatim>\<open>new Error(message)\<close>.\<close>

definition Error :: "string \<Rightarrow> js_error" where
  "Error m = JsError ''Error'' m"

definition aborted_error :: js_error where
  "aborted_error = Error ''Localization was aborted''"

text \<open>The \<^verbatim>\<open>TypeError\<close> of reading the property \<open>k\<close> of \<^verbatim>\<open>undefined\<close> or \<^verbatim>\<open>null\<close>.\<close>

definition cannot_read_property :: "string \<Rightarrow> string \<Rightarrow> js_error" where
  "cannot_read_property base k =
     JsError ''TypeError''
       (''Cannot read properties of '' @ base @ '' (reading '' @ [CHR 0x27] @ k @ [CHR 0x27]
          @ '')'')"

text \<open>
  \<^verbatim>\<open>v.k\<close> for a key \<open>k\<close> that no prototype defines (\<^verbatim>\<open>data\<close>, \<^verbatim>\<open>error\<close>): reading a
  property of \<^verbatim>\<open>null\<close> or \<^verbatim>\<open>undefined\<close> throws a \<^verbatim>\<open>TypeError\<close>, an object gives its own
  property, and any other value gives \<^verbatim>\<open>undefined\<close>.
\<close>

definition get_prop :: "jsval \<Rightarrow> string \<Rightarrow> js_error + jsval" where
  "get_prop v k =
     (case v of
        Undefined \<Rightarrow> Inl (cannot_read_property ''undefined'' k)
      | Null \<Rightarrow> Inl (cannot_read_property ''null'' k)
      | Obj ps \<Rightarrow> Inr (case map_of ps k of Some x \<Rightarrow> x | None \<Rightarrow> Undefined)
      | _ \<Rightarrow> Inr Undefined)"

section \<open>The provider and the caller\<close>

text \<open>
  One request to \<^verbatim>\<open>POST {apiUrl}/i18n\<close>. The body is kept as the value that
  \<^verbatim>\<open>JSON.stringify\<close> receives.
\<close>

record request =
  req_url :: string
  req_authorization :: string
  req_workflowId :: string
  req_fast :: bool
  req_source :: "string option"
  req_target :: string
  req_data :: obj
  req_reference :: "obj option"

text \<open>
  What the code reads of a response: \<^verbatim>\<open>ok\<close>, \<^verbatim>\<open>status\<close>, \<^verbatim>\<open>statusText\<close>, and the
  outcomes of \<^verbatim>\<open>await res.text()\<close> and \<^verbatim>\<open>await res.json()\<close>, each of which may reject.
\<close>

record response =
  ok :: bool
  status :: nat
  statusText :: string
  res_text :: "js_error + string"
  res_json :: "js_error + jsval"

text \<open>\<^verbatim>\<open>localizationParamsSchema\<close>: a \<^verbatim>\<open>null\<close> source locale and the optional fields are \<open>None\<close>.\<close>

record params =
  sourceLocale :: "string option"
  targetLocale :: string
  fast :: "bool option"
  reference :: "obj option"

text \<open>
  Everything outside the engine. \<open>fetch n req\<close> is the outcome of the provider call number
  \<open>n\<close> (counted from 0): a rejection or a response. \<open>signal\<close> is the caller's
  \<^verbatim>\<open>AbortSignal\<close>, if one was passed: its \<^verbatim>\<open>aborted\<close> flag as read when \<open>n\<close> provider calls
  have been made. \<open>createId\<close> is the workflow id minted for the call. The two schemas are
  external (\<^verbatim>\<open>zod\<close> and the locale code schema): \<open>payloadSchema_parse\<close> and
  \<open>localizationParamsSchema_parse\<close> return the parsed value or throw. The progress callback
  receives the operands \<open>i + 1\<close> and the number of chunks of the rounded percentage, with the
  source chunk and the processed chunk, and may throw. \<open>setAttribute_error name\<close> is the
  error with which the DOM's \<^verbatim>\<open>setAttribute\<close> rejects an attribute name, if it does.
\<close>

record env =
  fetch :: "nat \<Rightarrow> request \<Rightarrow> js_error + response"
  signal :: "(nat \<Rightarrow> bool) option"
  createId :: string
  payloadSchema_parse :: "obj \<Rightarrow> js_error + obj"
  localizationParamsSchema_parse :: "params \<Rightarrow> js_error + params"
  progressCallback :: "(nat \<Rightarrow> nat \<Rightarrow> obj \<Rightarrow> jsval \<Rightarrow> js_error option) option"
  setAttribute_error :: "string \<Rightarrow> js_error option"

text \<open>\<^verbatim>\<open>signal?.aborted\<close> when \<open>n\<close> provider calls have been made.\<close>

definition signal_aborted :: "env \<Rightarrow> nat \<Rightarrow> bool" where
  "signal_aborted e n = (case signal e of None \<Rightarrow> False | Some f \<Rightarrow> f n)"

section \<open>\<^verbatim>\<open>localizeChunk\<close>\<close>

text \<open>The body of the \<^verbatim>\<open>try\<close> block, from the outcome of \<^verbatim>\<open>await fetch(...)\<close> on.\<close>

definition localizeChunk_try :: "js_error + response \<Rightarrow> js_error + jsval" where
  "localizeChunk_try fetched =
     (case fetched of
        Inl e \<Rightarrow> Inl e
      | Inr res \<Rightarrow>
          if \<not> ok res then
            (if status res = 400 then Inl (Error (''Invalid request: '' @ statusText res))
             else (case res_text res of
                     Inl e \<Rightarrow> Inl e
                   | Inr errorText \<Rightarrow> Inl (Error errorText)))
          else
            (case res_json res of
               Inl e \<Rightarrow> Inl e
             | Inr jsonResponse \<Rightarrow>
                 (case get_prop jsonResponse ''data'' of
                    Inl e \<Rightarrow> Inl e
                  | Inr d \<Rightarrow>
                      if \<not> truthy d \<and> truthy (projr (get_prop jsonResponse ''error''))
                      then Inl (Error (toString (projr (get_prop jsonResponse ''error''))))
                      else Inr (if truthy d then d else Obj []))))"

text \<open>The \<^verbatim>\<open>catch\<close> block: what is thrown for a caught error.\<close>

definition catch_abort :: "js_error \<Rightarrow> js_error" where
  "catch_abort error =
     (if err_name error = ''AbortError''
         \<or> (err_message error \<noteq> [] \<and> includes_str (err_message error) ''aborted'')
      then aborted_error else error)"

text \<open>The request that \<^verbatim>\<open>localizeChunk\<close> hands to \<^verbatim>\<open>fetch\<close>.\<close>

definition i18n_request ::
  "config \<Rightarrow> string option \<Rightarrow> string \<Rightarrow> obj \<Rightarrow> obj option \<Rightarrow> string \<Rightarrow> bool \<Rightarrow> request" where
  "i18n_request cfg sourceLoc targetLoc payload_data payload_reference workflowId fastFlag =
     \<lparr> req_url = apiUrl cfg @ ''/i18n'',
       req_authorization = ''Bearer '' @ apiKey cfg,
       req_workflowId = workflowId,
       req_fast = fastFlag,
       req_source = sourceLoc,
       req_target = targetLoc,
       req_data = payload_data,
       req_reference = payload_reference \<rparr>"

text \<open>
  \<^verbatim>\<open>localizeChunk\<close>, with the provider calls made so far; it returns the outcome and the
  calls made.
\<close>

definition localizeChunk ::
  "config \<Rightarrow> env \<Rightarrow> string option \<Rightarrow> string \<Rightarrow> obj \<Rightarrow> obj option \<Rightarrow> string \<Rightarrow> bool
     \<Rightarrow> request list \<Rightarrow> (js_error + jsval) \<times> request list" where
  "localizeChunk cfg e sourceLoc targetLoc payload_data payload_reference workflowId fastFlag calls =
     (if signal_aborted e (length calls) then (Inl aborted_error, calls)
      else
        let req = i18n_request cfg sourceLoc targetLoc payload_data payload_reference
                    workflowId fastFlag
        in (case localizeChunk_try (fetch e (length calls) req) of
              Inl error \<Rightarrow> (Inl (catch_abort error), calls @ [req])
            | Inr v \<Rightarrow> (Inr v, calls @ [req])))"

section \<open>\<^verbatim>\<open>_localizeRaw\<close>\<close>

text \<open>
  The own enumerable properties that \<^verbatim>\<open>Object.assign\<close> copies from a source: the entries of
  an object, the indexed items of an array, the indexed characters of a string, and nothing
  for any other value.
\<close>

fun own_entries :: "jsval \<Rightarrow> obj" where
  "own_entries (Obj ps) = ps"
| "own_entries (Arr xs) = zip (map show_nat [0..<length xs]) xs"
| "own_entries (Str s) = zip (map show_nat [0..<length s]) (map (\<lambda>c. Str [c]) s)"
| "own_entries _ = []"

text \<open>\<^verbatim>\<open>Object.assign({}, ...sources)\<close>.\<close>

definition object_assign :: "jsval list \<Rightarrow> obj" where
  "object_assign sources =
     foldl (\<lambda>target src. foldl (\<lambda>t (k, v). obj_set t k v) target (own_entries src)) [] sources"

text \<open>
  \<^verbatim>\<open>if (progressCallback) progressCallback(percentageCompleted, chunk, processedPayloadChunk)\<close>:
  the error that the callback throws, if there is a callback and it throws.
\<close>

definition report_progress :: "env \<Rightarrow> nat \<Rightarrow> nat \<Rightarrow> obj \<Rightarrow> jsval \<Rightarrow> js_error option" where
  "report_progress e done_chunks n_chunks chunk processedPayloadChunk =
     (case progressCallback e of
        None \<Rightarrow> None
      | Some cb \<Rightarrow> cb done_chunks n_chunks chunk processedPayloadChunk)"

text \<open>
  The loop over the chunks, with the chunks still to process, the index \<open>i\<close> of the next one,
  the processed chunks and the provider calls made so far.
\<close>

fun localizeRaw_loop ::
  "config \<Rightarrow> env \<Rightarrow> params \<Rightarrow> params \<Rightarrow> string \<Rightarrow> nat \<Rightarrow> obj list \<Rightarrow> nat \<Rightarrow> jsval list
     \<Rightarrow> request list \<Rightarrow> (js_error + jsval list) \<times> request list" where
  "localizeRaw_loop cfg e finalParams ps workflowId n_chunks [] i processedPayloadChunks calls =
     (Inr processedPayloadChunks, calls)"
| "localizeRaw_loop cfg e finalParams ps workflowId n_chunks (chunk # rest) i processedPayloadChunks calls =
     (if signal_aborted e (length calls) then (Inl aborted_error, calls)
      else
        (case localizeChunk cfg e (sourceLocale finalParams) (targetLocale finalParams)
                chunk (reference ps) workflowId (case fast ps of Some b \<Rightarrow> b | None \<Rightarrow> False) calls of
           (Inl err, calls') \<Rightarrow> (Inl err, calls')
         | (Inr processedPayloadChunk, calls') \<Rightarrow>
             (case report_progress e (i + 1) n_chunks chunk processedPayloadChunk of
                Some err \<Rightarrow> (Inl err, calls')
              | None \<Rightarrow>
                  localizeRaw_loop cfg e finalParams ps workflowId n_chunks rest (i + 1)
                    (processedPayloadChunks @ [processedPayloadChunk]) calls')))"

definition localizeRaw ::
  "config \<Rightarrow> env \<Rightarrow> obj \<Rightarrow> params \<Rightarrow> request list \<Rightarrow> (js_error + obj) \<times> request list" where
  "localizeRaw cfg e payload ps calls =
     (if signal_aborted e (length calls) then (Inl aborted_error, calls)
      else
        (case payloadSchema_parse e payload of
           Inl err \<Rightarrow> (Inl err, calls)
         | Inr finalPayload \<Rightarrow>
             (case localizationParamsSchema_parse e ps of
                Inl err \<Rightarrow> (Inl err, calls)
              | Inr finalParams \<Rightarrow>
                  (let chunkedPayload = extractPayloadChunks cfg finalPayload;
                       workflowId = createId e
                   in case localizeRaw_loop cfg e finalParams ps workflowId
                             (length chunkedPayload) chunkedPayload 0 [] calls of
                        (Inl err, calls') \<Rightarrow> (Inl err, calls')
                      | (Inr processedPayloadChunks, calls') \<Rightarrow>
                          (Inr (object_assign processedPayloadChunks), calls')))))"

section \<open>\<^verbatim>\<open>localizeChat\<close>\<close>

record 't chat_message =
  chat_name :: string
  chat_text :: 't

text \<open>The message as the object \<^verbatim>\<open>{ name, text }\<close>.\<close>

definition message_value :: "string chat_message \<Rightarrow> jsval" where
  "message_value m = Obj [(''name'', Str (chat_name m)), (''text'', Str (chat_text m))]"

text \<open>
  \<^verbatim>\<open>Object.entries(localized).map(...)\<close>: each entry reads
  \<^verbatim>\<open>chat[parseInt(key.split("_")[1])].name\<close>, which throws when that message is
  \<^verbatim>\<open>undefined\<close>.
\<close>

fun recombine :: "string chat_message list \<Rightarrow> obj \<Rightarrow> js_error + jsval chat_message list" where
  "recombine chat [] = Inr []"
| "recombine chat ((key, v) # rest) =
     (case js_nth chat (parseInt_opt (nth_opt (split_on CHR ''_'' key) 1)) of
        None \<Rightarrow> Inl (cannot_read_property ''undefined'' ''name'')
      | Some m \<Rightarrow>
          (case recombine chat rest of
             Inl err \<Rightarrow> Inl err
           | Inr out \<Rightarrow> Inr (\<lparr> chat_name = chat_name m, chat_text = v \<rparr> # out)))"

definition localizeChat ::
  "config \<Rightarrow> env \<Rightarrow> string chat_message list \<Rightarrow> params \<Rightarrow> request list
     \<Rightarrow> (js_error + jsval chat_message list) \<times> request list" where
  "localizeChat cfg e chat ps calls =
     (case localizeRaw cfg e [(''chat'', Arr (map message_value chat))] ps calls of
        (Inl err, calls') \<Rightarrow> (Inl err, calls')
      | (Inr localized, calls') \<Rightarrow> (recombine chat localized, calls'))"

section \<open>The document\<close>

text \<open>
  A node of the parsed document: an element with its tag name as the DOM reports it, its
  attributes and its child nodes, a text node, or a node of another kind (a comment).
\<close>

datatype node =
    Element string "(string \<times> string) list" "node list"
  | Text string
  | Comment string

text \<open>
  The document as the code uses it: the attributes of the root element, and the elements
  \<^verbatim>\<open>document.head\<close> and \<^verbatim>\<open>document.body\<close> with their attributes and child nodes. The
  parser and the serializer are external; the model starts at the parsed document and ends at
  the document that is handed to \<^verbatim>\<open>dom.serialize()\<close>.
\<close>

record document =
  html_attributes :: "(string \<times> string) list"
  head_attributes :: "(string \<times> string) list"
  head_childNodes :: "node list"
  body_attributes :: "(string \<times> string) list"
  body_childNodes :: "node list"

definition head_node :: "document \<Rightarrow> node" where
  "head_node d = Element ''HEAD'' (head_attributes d) (head_childNodes d)"

definition body_node :: "document \<Rightarrow> node" where
  "body_node d = Element ''BODY'' (body_attributes d) (body_childNodes d)"

fun childNodes :: "node \<Rightarrow> node list" where
  "childNodes (Element t as cs) = cs"
| "childNodes _ = []"

text \<open>\<^verbatim>\<open>String.prototype.toLowerCase\<close> on code units below 256.\<close>

definition lower_char :: "char \<Rightarrow> char" where
  "lower_char c =
     (let n = (of_char c :: nat) in
      if (65 \<le> n \<and> n \<le> 90) \<or> (192 \<le> n \<and> n \<le> 214) \<or> (216 \<le> n \<and> n \<le> 222)
      then char_of (n + 32) else c)"

definition toLowerCase :: "string \<Rightarrow> string" where
  "toLowerCase s = map lower_char s"

text \<open>The lowercasing of the DOM, which changes the letters A to Z only.\<close>

definition ascii_lower :: "string \<Rightarrow> string" where
  "ascii_lower s =
     map (\<lambda>c. let n = (of_char c :: nat) in if 65 \<le> n \<and> n \<le> 90 then char_of (n + 32) else c) s"

definition UNLOCALIZABLE_TAGS :: "string list" where
  "UNLOCALIZABLE_TAGS = [''script'', ''style'']"

text \<open>
  \<^verbatim>\<open>(LOCALIZABLE_ATTRIBUTES[tagName] || []).forEach\<close>: the attribute names to visit. The tag
  names \<^verbatim>\<open>constructor\<close> and \<^verbatim>\<open>__proto__\<close> find an inherited member of the object literal,
  which has no \<^verbatim>\<open>forEach\<close>.
\<close>

definition forEach_error :: js_error where
  "forEach_error = JsError ''TypeError'' ''attributes.forEach is not a function''"

definition LOCALIZABLE_ATTRIBUTES :: "string \<Rightarrow> js_error + string list" where
  "LOCALIZABLE_ATTRIBUTES tag =
     (if tag = ''meta'' then Inr [''content'']
      else if tag = ''img'' then Inr [''alt'']
      else if tag = ''input'' then Inr [''placeholder'']
      else if tag = ''a'' then Inr [''title'']
      else if tag = ''constructor'' \<or> tag = ''__proto__''
      then Inl forEach_error
      else Inr [])"

text \<open>
  The filter of every child enumeration:
  \<^verbatim>\<open>n.nodeType === 1 || (n.nodeType === 3 && n.textContent?.trim())\<close>.
\<close>

fun filtered :: "node \<Rightarrow> bool" where
  "filtered (Element t as cs) = True"
| "filtered (Text s) = (trim s \<noteq> [])"
| "filtered (Comment s) = False"

text \<open>
  A node object is identified by its place: the indices among all child nodes on the way from
  the node up to \<^verbatim>\<open>document.head\<close> or \<^verbatim>\<open>document.body\<close>, innermost first. Its
  \<^verbatim>\<open>parentElement\<close> is the tail of that list.
\<close>

fun descend :: "node \<Rightarrow> nat list \<Rightarrow> node option" where
  "descend n [] = Some n"
| "descend (Element t as cs) (i # is) = (if i < length cs then descend (cs ! i) is else None)"
| "descend _ (i # is) = None"

definition node_at :: "node \<Rightarrow> nat list \<Rightarrow> node option" where
  "node_at r up = descend r (rev up)"

text \<open>The filtered child nodes of the node at a place, each given by its index among all.\<close>

definition kept_indices :: "node list \<Rightarrow> nat list" where
  "kept_indices cs = filter (\<lambda>i. filtered (cs ! i)) [0..<length cs]"

definition siblings_at :: "node \<Rightarrow> nat list \<Rightarrow> nat list" where
  "siblings_at r parent =
     kept_indices (case node_at r parent of Some p \<Rightarrow> childNodes p | None \<Rightarrow> [])"

text \<open>\<^verbatim>\<open>xs.indexOf(x)\<close>, with \<open>None\<close> for \<open>-1\<close>.\<close>

fun index_of :: "'a \<Rightarrow> 'a list \<Rightarrow> nat option" where
  "index_of x [] = None"
| "index_of x (y # ys) = (if x = y then Some 0 else map_option Suc (index_of x ys))"

subsection \<open>\<^verbatim>\<open>getPath\<close>\<close>

text \<open>
  The loop of \<^verbatim>\<open>getPath\<close> walks up from the node. It ends at the child of the root element
  (the empty place), whose lowercased name becomes the root of the path.
\<close>

fun getPath_loop :: "node \<Rightarrow> nat list \<Rightarrow> nat list \<Rightarrow> nat list" where
  "getPath_loop r [] indices = indices"
| "getPath_loop r (i # parent) indices =
     (case index_of i (siblings_at r parent) of
        None \<Rightarrow> getPath_loop r parent indices
      | Some index \<Rightarrow> getPath_loop r parent (index # indices))"

fun nodeName :: "node \<Rightarrow> string" where
  "nodeName (Element t as cs) = t"
| "nodeName (Text s) = ''#text''"
| "nodeName (Comment s) = ''#comment''"

definition getPath :: "node \<Rightarrow> nat list \<Rightarrow> string option \<Rightarrow> string" where
  "getPath r up attribute =
     (let indices = getPath_loop r up [];
          rootParent = toLowerCase (nodeName r);
          basePath = (if rootParent \<noteq> [] then rootParent @ ''/'' @ join ''/'' (map show_nat indices)
                      else join ''/'' (map show_nat indices))
      in case attribute of
           None \<Rightarrow> basePath
         | Some a \<Rightarrow> if a \<noteq> [] then basePath @ ''#'' @ a else basePath)"

subsection \<open>\<^verbatim>\<open>processNode\<close>\<close>

text \<open>
  The loop over the ancestors. Above \<^verbatim>\<open>document.head\<close> and \<^verbatim>\<open>document.body\<close> there is
  only the root element, whose tag is not unlocalizable.
\<close>

fun has_unlocalizable_ancestor :: "node \<Rightarrow> nat list \<Rightarrow> bool" where
  "has_unlocalizable_ancestor r [] = False"
| "has_unlocalizable_ancestor r (i # parent) =
     (case node_at r parent of
        Some (Element t as cs) \<Rightarrow>
          toLowerCase t \<in> set UNLOCALIZABLE_TAGS \<or> has_unlocalizable_ancestor r parent
      | _ \<Rightarrow> has_unlocalizable_ancestor r parent)"

text \<open>\<^verbatim>\<open>element.getAttribute(attr)\<close>.\<close>

definition getAttribute :: "(string \<times> string) list \<Rightarrow> string \<Rightarrow> string option" where
  "getAttribute as attr = map_of as (ascii_lower attr)"

text \<open>The attribute loop of an element at the place \<open>up\<close>.\<close>

definition extract_attributes ::
  "node \<Rightarrow> nat list \<Rightarrow> (string \<times> string) list \<Rightarrow> string list \<Rightarrow> obj \<Rightarrow> obj" where
  "extract_attributes r up as names extractedContent =
     foldl (\<lambda>acc attr. case getAttribute as attr of
                          None \<Rightarrow> acc
                        | Some v \<Rightarrow> if v \<noteq> [] then obj_set acc (getPath r up (Some attr)) (Str v)
                                    else acc)
       extractedContent names"

text \<open>
  \<^verbatim>\<open>processNode\<close> on the node at the place \<open>up\<close> under the root \<open>r\<close>, and the
  \<^verbatim>\<open>forEach\<close> over the filtered child nodes from the index \<open>i\<close> on. The map
  \<^verbatim>\<open>extractedContent\<close> is passed along.
\<close>

fun processNode :: "node \<Rightarrow> nat list \<Rightarrow> node \<Rightarrow> obj \<Rightarrow> js_error + obj"
  and processChildren :: "node \<Rightarrow> nat list \<Rightarrow> nat \<Rightarrow> node list \<Rightarrow> obj \<Rightarrow> js_error + obj" where
  "processNode r up (Text s) extractedContent =
     (if has_unlocalizable_ancestor r up then Inr extractedContent
      else if trim s \<noteq> [] then Inr (obj_set extractedContent (getPath r up None) (Str (trim s)))
      else Inr extractedContent)"
| "processNode r up (Comment s) extractedContent = Inr extractedContent"
| "processNode r up (Element t as cs) extractedContent =
     (if has_unlocalizable_ancestor r up then Inr extractedContent
      else
        (case LOCALIZABLE_ATTRIBUTES (toLowerCase t) of
           Inl err \<Rightarrow> Inl err
         | Inr names \<Rightarrow>
             processChildren r up 0 cs (extract_attributes r up as names extractedContent)))"
| "processChildren r up i [] extractedContent = Inr extractedContent"
| "processChildren r up i (c # cs) extractedContent =
     (if filtered c then
        (case processNode r (i # up) c extractedContent of
           Inl err \<Rightarrow> Inl err
         | Inr extractedContent' \<Rightarrow> processChildren r up (i + 1) cs extractedContent')
      else processChildren r up (i + 1) cs extractedContent)"

text \<open>The two walks, over the child nodes of the head and then of the body.\<close>

definition extractContent :: "document \<Rightarrow> js_error + obj" where
  "extractContent d =
     (case processChildren (head_node d) [] 0 (head_childNodes d) [] of
        Inl err \<Rightarrow> Inl err
      | Inr extractedContent \<Rightarrow>
          processChildren (body_node d) [] 0 (body_childNodes d) extractedContent)"

subsection \<open>Writing the localized content back\<close>

text \<open>
  The loop over the indices of a path, with the place of \<^verbatim>\<open>parent\<close> and the place of
  \<^verbatim>\<open>current\<close> (\<open>None\<close> for \<^verbatim>\<open>null\<close>). \<^verbatim>\<open>parent\<close> moves only to an element.
\<close>

fun resolve_loop :: "node \<Rightarrow> string list \<Rightarrow> nat list \<Rightarrow> nat list option \<Rightarrow> nat list option" where
  "resolve_loop r [] parent current = current"
| "resolve_loop r (index # rest) parent current =
     (let current' = map_option (\<lambda>i. i # parent) (js_nth (siblings_at r parent) (parseInt index));
          parent' = (case current' of
                       None \<Rightarrow> parent
                     | Some c \<Rightarrow> (case node_at r c of
                                    Some (Element t as cs) \<Rightarrow> c
                                  | _ \<Rightarrow> parent))
      in resolve_loop r rest parent' current')"

text \<open>The node at a place (given from the root downwards) replaced by its image under \<open>f\<close>.\<close>

fun update_at :: "node \<Rightarrow> nat list \<Rightarrow> (node \<Rightarrow> node) \<Rightarrow> node" where
  "update_at n [] f = f n"
| "update_at (Element t as cs) (i # is) f =
     (if i < length cs then Element t as (cs[i := update_at (cs ! i) is f])
      else Element t as cs)"
| "update_at n (i # is) f = n"

text \<open>
  \<^verbatim>\<open>setAttribute(name, value)\<close> on the attributes of an element, after the name has been
  accepted: the name is lowercased, an existing attribute keeps its place.
\<close>

fun set_attr :: "(string \<times> string) list \<Rightarrow> string \<Rightarrow> string \<Rightarrow> (string \<times> string) list" where
  "set_attr [] k v = [(k, v)]"
| "set_attr ((k', v') # as) k v = (if k' = k then (k, v) # as else (k', v') # set_attr as k v)"

fun setAttribute :: "node \<Rightarrow> string \<Rightarrow> string \<Rightarrow> node" where
  "setAttribute (Element t as cs) name v = Element t (set_attr as (ascii_lower name) v) cs"
| "setAttribute n name v = n"

text \<open>
  \<^verbatim>\<open>node.textContent = s\<close>: an element gets one text node as its only child, or none for the
  empty string; a text node gets new data.
\<close>

fun set_textContent :: "node \<Rightarrow> string \<Rightarrow> node" where
  "set_textContent (Element t as cs) s = Element t as (if s = [] then [] else [Text s])"
| "set_textContent (Text old) s = Text s"
| "set_textContent (Comment old) s = Comment s"

text \<open>The string that the \<^verbatim>\<open>textContent\<close> setter makes of a value: \<^verbatim>\<open>null\<close> is empty.\<close>

definition textContent_string :: "jsval \<Rightarrow> string" where
  "textContent_string v = (if v = Null then [] else toString v)"

text \<open>The document with a new \<^verbatim>\<open>document.head\<close> or \<^verbatim>\<open>document.body\<close>.\<close>

fun put_root :: "bool \<Rightarrow> document \<Rightarrow> node \<Rightarrow> document" where
  "put_root is_head d (Element t as cs) =
     (if is_head then d\<lparr> head_attributes := as, head_childNodes := cs \<rparr>
      else d\<lparr> body_attributes := as, body_childNodes := cs \<rparr>)"
| "put_root is_head d n = d"

text \<open>
  The body of the \<^verbatim>\<open>forEach\<close> over \<^verbatim>\<open>Object.entries(localizedContent)\<close> for one entry.
  \<^verbatim>\<open>split\<close> never returns an empty array, so the path and the root tag always exist.
\<close>

definition apply_entry :: "env \<Rightarrow> document \<Rightarrow> string \<times> jsval \<Rightarrow> js_error + document" where
  "apply_entry e d entry =
     (let path = fst entry;
          v = snd entry;
          nodePath = (case split_on CHR ''#'' path of [] \<Rightarrow> [] | x # xs \<Rightarrow> x);
          attribute = nth_opt (split_on CHR ''#'' path) 1;
          rootTag = (case split_on CHR ''/'' nodePath of [] \<Rightarrow> [] | x # xs \<Rightarrow> x);
          indices = tl (split_on CHR ''/'' nodePath);
          is_head = (rootTag = ''head'');
          r = (if is_head then head_node d else body_node d)
      in case resolve_loop r indices [] (Some []) of
           None \<Rightarrow> Inr d
         | Some current \<Rightarrow>
             (case attribute of
                Some a \<Rightarrow>
                  if a \<noteq> [] then
                    (case node_at r current of
                       Some (Element t as cs) \<Rightarrow>
                         (case setAttribute_error e a of
                            Some err \<Rightarrow> Inl err
                          | None \<Rightarrow>
                              Inr (put_root is_head d
                                     (update_at r (rev current) (\<lambda>n. setAttribute n a (toString v)))))
                     | _ \<Rightarrow> Inl (JsError ''TypeError'' ''current.setAttribute is not a function''))
                  else Inr (put_root is_head d
                              (update_at r (rev current) (\<lambda>n. set_textContent n (textContent_string v))))
              | None \<Rightarrow>
                  Inr (put_root is_head d
                         (update_at r (rev current) (\<lambda>n. set_textContent n (textContent_string v))))))"

fun apply_entries :: "env \<Rightarrow> document \<Rightarrow> obj \<Rightarrow> js_error + document" where
  "apply_entries e d [] = Inr d"
| "apply_entries e d (entry # rest) =
     (case apply_entry e d entry of
        Inl err \<Rightarrow> Inl err
      | Inr d' \<Rightarrow> apply_entries e d' rest)"

subsection \<open>\<^verbatim>\<open>localizeHtml\<close>\<close>

text \<open>
  \<^verbatim>\<open>localizeHtml\<close> from the parsed document to the document that is serialized. Every error
  thrown inside the \<^verbatim>\<open>try\<close> block passes through the \<^verbatim>\<open>catch\<close> block.
\<close>

definition localizeHtml ::
  "config \<Rightarrow> env \<Rightarrow> document \<Rightarrow> params \<Rightarrow> request list
     \<Rightarrow> (js_error + document) \<times> request list" where
  "localizeHtml cfg e d ps calls =
     (if signal_aborted e (length calls) then (Inl aborted_error, calls)
      else
        (case extractContent d of
           Inl err \<Rightarrow> (Inl (catch_abort err), calls)
         | Inr extractedContent \<Rightarrow>
             (case localizeRaw cfg e extractedContent ps calls of
                (Inl err, calls') \<Rightarrow> (Inl (catch_abort err), calls')
              | (Inr localizedContent, calls') \<Rightarrow>
                  (case setAttribute_error e ''lang'' of
                     Some err \<Rightarrow> (Inl (catch_abort err), calls')
                   | None \<Rightarrow>
                       (case apply_entries e
                               (d\<lparr> html_attributes :=
                                      set_attr (html_attributes d) ''lang'' (targetLocale ps) \<rparr>)
                               localizedContent of
                          Inl err \<Rightarrow> (Inl (catch_abort err), calls')
                        | Inr d' \<Rightarrow> (Inr d', calls'))))))"

section \<open>The localizable content of a document, by structure\<close>

text \<open>
  What the two walks are expected to find, defined on the tree alone. A target is a place
  below a node (the child indices from that node downwards), the attribute name or \<open>None\<close>
  for the text, and the extracted string. Nothing below a \<^verbatim>\<open>script\<close> or \<^verbatim>\<open>style\<close> element
  is a target.
\<close>

definition unlocalizable :: "string \<Rightarrow> bool" where
  "unlocalizable t = (toLowerCase t \<in> set UNLOCALIZABLE_TAGS)"

definition attr_targets ::
  "string \<Rightarrow> (string \<times> string) list \<Rightarrow> (nat list \<times> string option \<times> string) list" where
  "attr_targets t as =
     concat (map (\<lambda>a. case getAttribute as a of
                         None \<Rightarrow> []
                       | Some v \<Rightarrow> if v \<noteq> [] then [([], Some a, v)] else [])
               (case LOCALIZABLE_ATTRIBUTES (toLowerCase t) of Inr names \<Rightarrow> names | Inl err \<Rightarrow> []))"

fun rel_targets :: "node \<Rightarrow> (nat list \<times> string option \<times> string) list"
  and rel_children :: "nat \<Rightarrow> node list \<Rightarrow> (nat list \<times> string option \<times> string) list" where
  "rel_targets (Text s) = (if trim s \<noteq> [] then [([], None, trim s)] else [])"
| "rel_targets (Comment s) = []"
| "rel_targets (Element t as cs) =
     attr_targets t as @ (if unlocalizable t then [] else rel_children 0 cs)"
| "rel_children i [] = []"
| "rel_children i (c # cs) =
     (if filtered c then map (\<lambda>(q, a, v). (i # q, a, v)) (rel_targets c) else [])
     @ rel_children (Suc i) cs"

text \<open>
  The elements that the walk reaches all have a tag for which the attribute loop runs: no
  element outside \<^verbatim>\<open>script\<close> and \<^verbatim>\<open>style\<close> is named \<^verbatim>\<open>constructor\<close> or \<^verbatim>\<open>__proto__\<close>.
\<close>

fun forEach_ok :: "node \<Rightarrow> bool" where
  "forEach_ok (Element t as cs) =
     (\<not> isl (LOCALIZABLE_ATTRIBUTES (toLowerCase t)) \<and> (unlocalizable t \<or> list_all forEach_ok cs))"
| "forEach_ok _ = True"

text \<open>Whether the node at a place below \<open>n\<close> is a \<^verbatim>\<open>script\<close> or \<^verbatim>\<open>style\<close> element or lies in one.\<close>

fun in_unlocalizable :: "node \<Rightarrow> nat list \<Rightarrow> bool" where
  "in_unlocalizable (Element t as cs) [] = unlocalizable t"
| "in_unlocalizable (Element t as cs) (i # q) =
     (unlocalizable t \<or> (i < length cs \<and> in_unlocalizable (cs ! i) q))"
| "in_unlocalizable n q = False"

text \<open>
  The localizable string of the node at a place below \<open>n\<close>: the trimmed data of a text node,
  or the value of an attribute of an element.
\<close>

definition content_at :: "node \<Rightarrow> nat list \<Rightarrow> string option \<Rightarrow> string option" where
  "content_at n q a =
     (case descend n q of
        Some (Text s) \<Rightarrow> (case a of None \<Rightarrow> Some (trim s) | Some attr \<Rightarrow> None)
      | Some (Element t as cs) \<Rightarrow> (case a of None \<Rightarrow> None | Some attr \<Rightarrow> getAttribute as attr)
      | _ \<Rightarrow> None)"

text \<open>
  The document that the round trip is expected to return: every text node that is extracted
  holds its trimmed text, and everything else is as before.
\<close>

fun trim_localizable :: "node \<Rightarrow> node" where
  "trim_localizable (Text s) = (if trim s \<noteq> [] then Text (trim s) else Text s)"
| "trim_localizable (Comment s) = Comment s"
| "trim_localizable (Element t as cs) =
     Element t as (if unlocalizable t then cs else map trim_localizable cs)"

text \<open>The key and the value that the walk stores for a target below the place \<open>up\<close>.\<close>

definition enc :: "node \<Rightarrow> nat list \<Rightarrow> nat list \<times> string option \<times> string \<Rightarrow> string \<times> jsval" where
  "enc r up target =
     (case target of (q, a, v) \<Rightarrow> (getPath r (rev q @ up) a, Str v))"

definition add_entries :: "obj \<Rightarrow> obj \<Rightarrow> obj" where
  "add_entries acc es = foldl (\<lambda>acc (k, v). obj_set acc k v) acc es"

text \<open>The entries that the two walks are expected to store.\<close>

definition head_targets :: "document \<Rightarrow> obj" where
  "head_targets d = map (enc (head_node d) []) (rel_children 0 (head_childNodes d))"

definition body_targets :: "document \<Rightarrow> obj" where
  "body_targets d = map (enc (body_node d) []) (rel_children 0 (body_childNodes d))"

section \<open>Paths, by structure\<close>

text \<open>
  The position of the child with index \<open>i\<close> among the filtered child nodes: the number of
  filtered child nodes in front of it.
\<close>

definition fpos :: "node list \<Rightarrow> nat \<Rightarrow> nat" where
  "fpos cs i = length (filter (\<lambda>j. filtered (cs ! j)) [0..<i])"

text \<open>
  A place below \<open>n\<close>, given downwards, every step of which goes from an element to one of its
  filtered child nodes; and the filtered positions along such a place.
\<close>

fun kept_path :: "node \<Rightarrow> nat list \<Rightarrow> bool" where
  "kept_path n [] = True"
| "kept_path (Element t as cs) (i # q) = (i < length cs \<and> filtered (cs ! i) \<and> kept_path (cs ! i) q)"
| "kept_path n (i # q) = False"

fun path_indices :: "node \<Rightarrow> nat list \<Rightarrow> nat list" where
  "path_indices (Element t as cs) (i # q) = fpos cs i # path_indices (cs ! i) q"
| "path_indices n q = []"

text \<open>
  What the resolution of a path depends on: the tree of elements and child positions, and
  which text nodes are blank.
\<close>

fun shape :: "node \<Rightarrow> node" where
  "shape (Element t as cs) = Element [] [] (map shape cs)"
| "shape (Text s) = Text (if trim s = [] then [] else ''x'')"
| "shape (Comment s) = Comment []"

text \<open>
  The change that the entry of a target makes to the node it addresses: new attribute value or
  new text.
\<close>

definition target_update :: "string option \<Rightarrow> string \<Rightarrow> node \<Rightarrow> node" where
  "target_update a v n = (case a of Some attr \<Rightarrow> setAttribute n attr v | None \<Rightarrow> set_textContent n v)"

definition apply_targets :: "node \<Rightarrow> (nat list \<times> string option \<times> string) list \<Rightarrow> node" where
  "apply_targets n ts = foldl (\<lambda>m (q, a, v). update_at m q (target_update a v)) n ts"

text \<open>The document expected from the round trip with the target locale \<open>locale\<close>.\<close>

definition trimmed_document :: "document \<Rightarrow> string \<Rightarrow> document" where
  "trimmed_document d locale =
     d\<lparr> html_attributes := set_attr (html_attributes d) ''lang'' locale,
        head_childNodes := map trim_localizable (head_childNodes d),
        body_childNodes := map trim_localizable (body_childNodes d) \<rparr>"

text \<open>The end of a key: the attribute name after \<^verbatim>\<open>#\<close>, if the target is an attribute.\<close>

definition key_suffix :: "string option \<Rightarrow> string" where
  "key_suffix a = (case a of None \<Rightarrow> [] | Some x \<Rightarrow> if x \<noteq> [] then CHR ''#'' # x else [])"

text \<open>The head or the body of a document, and the root tag of its paths.\<close>

definition root_of :: "bool \<Rightarrow> document \<Rightarrow> node" where
  "root_of h d = (if h then head_node d else body_node d)"

definition root_tag :: "bool \<Rightarrow> string" where
  "root_tag h = (if h then ''head'' else ''body'')"

text \<open>
  A target that an entry can address below \<open>r\<close>: a kept place; for a text a text node and a
  new text that is not blank; for an attribute an element and a name that the DOM accepts.
  Below a root the place is not the root itself.
\<close>

definition target_at :: "env \<Rightarrow> node \<Rightarrow> nat list \<times> string option \<times> string \<Rightarrow> bool" where
  "target_at e r target =
     (case target of (q, a, v) \<Rightarrow>
        kept_path r q
        \<and> (case a of
              None \<Rightarrow> (case descend r q of Some (Text s) \<Rightarrow> trim v \<noteq> [] | _ \<Rightarrow> False)
            | Some x \<Rightarrow>
                (case descend r q of
                   Some (Element t as cs) \<Rightarrow>
                     x \<noteq> [] \<and> CHR ''#'' \<notin> set x \<and> setAttribute_error e x = None
                 | _ \<Rightarrow> False)))"

definition target_ok :: "env \<Rightarrow> node \<Rightarrow> nat list \<times> string option \<times> string \<Rightarrow> bool" where
  "target_ok e r target =
     (case target of (q, a, v) \<Rightarrow>
        q \<noteq> [] \<and> kept_path r q
        \<and> (case a of
              None \<Rightarrow> (case descend r q of Some (Text s) \<Rightarrow> trim v \<noteq> [] | _ \<Rightarrow> False)
            | Some x \<Rightarrow>
                (case descend r q of
                   Some (Element t as cs) \<Rightarrow>
                     x \<noteq> [] \<and> CHR ''#'' \<notin> set x \<and> setAttribute_error e x = None
                 | _ \<Rightarrow> False)))"

text \<open>The place and the attribute of a target, without its string.\<close>

definition target_place :: "nat list \<times> string option \<times> string \<Rightarrow> nat list \<times> string option" where
  "target_place target = (case target of (q, a, v) \<Rightarrow> (q, a))"

section \<open>Example inputs\<close>

text \<open>Inputs at which the theorems below are instantiated.\<close>

definition example_config :: config where
  "example_config =
     \<lparr> apiKey = ''key'', apiUrl = ''https://engine.lingo.dev'', batchSize = 1,
       idealBatchItemSize = 250 \<rparr>"

text \<open>An environment whose schemas accept every value and return it unchanged.\<close>

definition example_env ::
  "(nat \<Rightarrow> request \<Rightarrow> js_error + response) \<Rightarrow> (nat \<Rightarrow> bool) option \<Rightarrow> env" where
  "example_env provider sig =
     \<lparr> fetch = provider, signal = sig, createId = ''wf1'',
       payloadSchema_parse = Inr, localizationParamsSchema_parse = Inr,
       progressCallback = None, setAttribute_error = (\<lambda>name. None) \<rparr>"

definition failure_response :: "nat \<Rightarrow> string \<Rightarrow> string \<Rightarrow> response" where
  "failure_response code reason body =
     \<lparr> ok = False, status = code, statusText = reason, res_text = Inr body,
       res_json = Inl (JsError ''SyntaxError'' ''Unexpected token in JSON at position 0'') \<rparr>"

definition success_response :: "jsval \<Rightarrow> response" where
  "success_response j =
     \<lparr> ok = True, status = 200, statusText = ''OK'', res_text = Inr (toString j),
       res_json = Inr j \<rparr>"

text \<open>A provider that answers every request with its own data: the identity translation.\<close>

definition echo_provider :: "nat \<Rightarrow> request \<Rightarrow> js_error + response" where
  "echo_provider n req = Inr (success_response (Obj [(''data'', Obj (req_data req))]))"

definition example_params :: params where
  "example_params =
     \<lparr> sourceLocale = Some ''en'', targetLocale = ''es'', fast = None, reference = None \<rparr>"

text \<open>
  A small page: a title and a description in the head; in the body a text with white space
  around it, a paragraph with a link and an image, a comment and a script.
\<close>

definition example_document :: document where
  "example_document =
     \<lparr> html_attributes = [],
       head_attributes = [],
       head_childNodes =
         [Text [CHR 0x0A, CHR 0x20],
          Element ''TITLE'' [] [Text ''Test Page''],
          Element ''META'' [(''name'', ''description''), (''content'', ''Page description'')] []],
       body_attributes = [],
       body_childNodes =
         [Text '' standalone text '',
          Comment ''note'',
          Element ''P'' []
            [Text ''Read '',
             Element ''A'' [(''href'', ''/test''), (''title'', ''Link title'')] [Text ''a link''],
             Element ''IMG'' [(''src'', ''/test.jpg''), (''alt'', ''Test image'')] []],
          Element ''SCRIPT'' [] [Text ''alert(1)'']] \<rparr>"

section \<open>Verified properties\<close>

subsection \<open>Word count\<close>

lemma foldl_add_sum_list:
  "foldl (\<lambda>acc item. acc + f item) a xs = a + sum_list (map f xs)" for f :: "'a \<Rightarrow> nat"
  by (induction xs arbitrary: a) simp_all

text \<open>
  Claim C8 states that the recursive word count of the payload
  \<^verbatim>\<open>{"a":"hello world", "b":["foo","bar baz"]}\<close> is 4. The payload holds the five words
  hello, world, foo, bar and baz, and the code counts 5.
\<close>

theorem countWordsInRecord_example_not_4:
  "countWordsInRecord
     (Obj [(''a'', Str ''hello world''), (''b'', Arr [Str ''foo'', Str ''bar baz''])]) \<noteq> 4"
  by (simp add: countWords_def trim_def is_ws_def split_ws.simps)

text \<open>
  Claim C8, amended. The recursive word count of that payload is 5. The count of a string is
  the number of non-empty pieces between the white space runs of the trimmed string, an array
  and an object sum the counts of their items and values, and every other value counts zero.
\<close>

theorem countWordsInRecord_example:
  "countWordsInRecord
     (Obj [(''a'', Str ''hello world''), (''b'', Arr [Str ''foo'', Str ''bar baz''])]) = 5
   \<and> (\<forall>s. countWordsInRecord (Str s) = length (filter (\<lambda>p. p \<noteq> []) (split_ws (trim s))))
   \<and> (\<forall>items. countWordsInRecord (Arr items) = sum_list (map countWordsInRecord items))
   \<and> (\<forall>props. countWordsInRecord (Obj props) = sum_list (map (countWordsInRecord \<circ> snd) props))
   \<and> countWordsInRecord Undefined = 0 \<and> countWordsInRecord Null = 0
   \<and> (\<forall>b. countWordsInRecord (Bool b) = 0) \<and> (\<forall>n. countWordsInRecord (Num n) = 0)"
proof -
  have "countWordsInRecord
     (Obj [(''a'', Str ''hello world''), (''b'', Arr [Str ''foo'', Str ''bar baz''])]) = 5"
    by (simp add: countWords_def trim_def is_ws_def split_ws.simps)
  moreover have "\<forall>s. countWordsInRecord (Str s)
      = length (filter (\<lambda>p. p \<noteq> []) (split_ws (trim s)))"
    by (simp add: countWords_def)
  moreover have "\<forall>items. countWordsInRecord (Arr items)
      = sum_list (map countWordsInRecord items)"
    by (simp add: foldl_add_sum_list)
  moreover have "\<forall>props. countWordsInRecord (Obj props)
      = sum_list (map (countWordsInRecord \<circ> snd) props)"
    by (simp add: foldl_add_sum_list)
  ultimately show ?thesis by simp
qed

subsection \<open>The chunker\<close>

lemma obj_set_append:
  assumes "record_entries (c @ [(k, v)])"
  shows "obj_set c k v = c @ [(k, v)]"
proof -
  from assms have d: "k \<notin> fst ` set c" and np: "k \<noteq> ''__proto__''"
    and s: "\<forall>k' \<in> set (map fst c). key_precedes k' k"
    by (auto simp: record_entries_def sorted_wrt_append)
  show ?thesis
  proof (cases "array_index k")
    case None
    then show ?thesis using d np by (simp add: obj_set_def)
  next
    case (Some n)
    have "\<forall>e \<in> set c. (\<lambda>(k', _). stays_before n k') e"
      using s Some by (auto simp: key_precedes_def stays_before_def split: option.splits)
    then have "takeWhile (\<lambda>(k', _). stays_before n k') c = c"
      and "dropWhile (\<lambda>(k', _). stays_before n k') c = []"
      by (simp_all add: takeWhile_eq_all_conv)
    then show ?thesis using d np Some by (simp add: obj_set_def)
  qed
qed

lemma record_entries_prefix: "record_entries (xs @ ys) \<Longrightarrow> record_entries xs"
  by (auto simp: record_entries_def sorted_wrt_append)

lemma record_entries_suffix: "record_entries (xs @ ys) \<Longrightarrow> record_entries ys"
  by (auto simp: record_entries_def sorted_wrt_append)

text \<open>
  The invariant of the loop: the chunks pushed so far, the current chunk and the entries still
  to visit make up the payload. After the last entry the current chunk is empty.
\<close>

lemma chunk_loop_concat:
  "record_entries (cur @ rest) \<Longrightarrow>
   concat (chunk_loop cfg rest result cur cnt)
     = concat result @ (if rest = [] then [] else cur @ rest)"
proof (induction rest arbitrary: result cur cnt)
  case Nil
  then show ?case by simp
next
  case (Cons e rest)
  obtain k v where e: "e = (k, v)" by (cases e)
  have "record_entries ((cur @ [(k, v)]) @ rest)" using Cons.prems e by simp
  then have p: "record_entries (cur @ [(k, v)])" and q: "record_entries rest"
    and r: "record_entries ((cur @ [(k, v)]) @ rest)"
    by (blast dest: record_entries_prefix record_entries_suffix)+
  have s: "obj_set cur k v = cur @ [(k, v)]" by (rule obj_set_append [OF p])
  show ?case
    using Cons.IH [of "[]" "result @ [cur @ [(k, v)]]" 0]
      Cons.IH [of "cur @ [(k, v)]" result "Suc cnt"] q r
    by (simp add: e s Let_def)
qed

lemma distinct_concat_unique:
  "distinct (concat xss) \<Longrightarrow> i < length xss \<Longrightarrow> j < length xss \<Longrightarrow>
   x \<in> set (xss ! i) \<Longrightarrow> x \<in> set (xss ! j) \<Longrightarrow> i = j"
proof (induction xss arbitrary: i j)
  case Nil
  then show ?case by simp
next
  case (Cons ys xss)
  show ?case
  proof (cases i)
    case 0
    show ?thesis
    proof (cases j)
      case 0
      with \<open>i = 0\<close> show ?thesis by simp
    next
      case (Suc j')
      have "x \<in> set ys" using Cons.prems(4) \<open>i = 0\<close> by simp
      moreover have "x \<in> set (concat xss)" using Cons.prems(3,5) Suc by auto
      ultimately show ?thesis using Cons.prems(1) by auto
    qed
  next
    case (Suc i')
    show ?thesis
    proof (cases j)
      case 0
      have "x \<in> set ys" using Cons.prems(5) 0 by simp
      moreover have "x \<in> set (concat xss)" using Cons.prems(2,4) Suc by auto
      ultimately show ?thesis using Cons.prems(1) by auto
    next
      case (Suc j')
      have "i' = j'"
        using Cons.IH [of i' j'] Cons.prems \<open>i = Suc i'\<close> Suc by simp
      then show ?thesis using \<open>i = Suc i'\<close> Suc by simp
    qed
  qed
qed

lemma in_concat_nth: "x \<in> set (concat xss) \<Longrightarrow> \<exists>i < length xss. x \<in> set (xss ! i)"
proof -
  assume "x \<in> set (concat xss)"
  then obtain ys where "ys \<in> set xss" "x \<in> set ys" by auto
  then show ?thesis by (auto simp: in_set_conv_nth)
qed

lemma key_in_exactly_one:
  assumes c: "concat chunks = payload" and d: "distinct (map fst payload)"
  shows "\<forall>k \<in> set (map fst payload).
           \<exists>!i. i < length chunks \<and> k \<in> set (map fst (chunks ! i))"
proof
  fix k assume k: "k \<in> set (map fst payload)"
  let ?kss = "map (map fst) chunks"
  have e: "concat ?kss = map fst payload" using c [symmetric] by (simp add: map_concat)
  then have dk: "distinct (concat ?kss)" using d by simp
  have "k \<in> set (concat ?kss)" using k e by simp
  then obtain i where i: "i < length ?kss" "k \<in> set (?kss ! i)"
    using in_concat_nth [of k ?kss] by auto
  show "\<exists>!i. i < length chunks \<and> k \<in> set (map fst (chunks ! i))"
  proof (rule ex1I [of _ i])
    show "i < length chunks \<and> k \<in> set (map fst (chunks ! i))" using i by simp
  next
    fix j assume j: "j < length chunks \<and> k \<in> set (map fst (chunks ! j))"
    then have "j < length ?kss" "k \<in> set (?kss ! j)" by simp_all
    then show "j = i" by (rule distinct_concat_unique [OF dk _ i(1) _ i(2)])
  qed
qed

text \<open>
  Claim C1. For every payload (the entries of a record, as the schema hands them to the
  chunker) and every configuration, the chunks of \<^verbatim>\<open>extractPayloadChunks\<close>, concatenated in
  order, are exactly the payload's entries in their order; no key occurs twice in them, and
  every key of the payload lies in exactly one chunk.
\<close>

theorem extractPayloadChunks_bijection:
  assumes "record_entries payload"
  shows "concat (extractPayloadChunks cfg payload) = payload
    \<and> distinct (map fst (concat (extractPayloadChunks cfg payload)))
    \<and> (\<forall>k \<in> set (map fst payload).
          \<exists>!i. i < length (extractPayloadChunks cfg payload)
               \<and> k \<in> set (map fst (extractPayloadChunks cfg payload ! i)))"
proof -
  have c: "concat (extractPayloadChunks cfg payload) = payload"
    using chunk_loop_concat [of "[]" payload cfg "[]" 0] assms
    by (simp add: extractPayloadChunks_def)
  have d: "distinct (map fst payload)" using assms by (simp add: record_entries_def)
  show ?thesis using c d key_in_exactly_one [OF c d] by simp
qed

theorem extractPayloadChunks_bijection_witness:
  "record_entries [(''0'', Str ''a b c d''), (''2'', Str ''x''), (''k'', Str ''y''), (''z'', Null)]
   \<and> extractPayloadChunks \<lparr>apiKey = ''key'', apiUrl = ''url'', batchSize = 2, idealBatchItemSize = 3\<rparr>
        [(''0'', Str ''a b c d''), (''2'', Str ''x''), (''k'', Str ''y''), (''z'', Null)]
      = [[(''0'', Str ''a b c d'')], [(''2'', Str ''x''), (''k'', Str ''y'')], [(''z'', Null)]]
   \<and> concat (extractPayloadChunks \<lparr>apiKey = ''key'', apiUrl = ''url'', batchSize = 2, idealBatchItemSize = 3\<rparr>
        [(''0'', Str ''a b c d''), (''2'', Str ''x''), (''k'', Str ''y''), (''z'', Null)])
      = [(''0'', Str ''a b c d''), (''2'', Str ''x''), (''k'', Str ''y''), (''z'', Null)]"
proof -
  have h: "record_entries
      [(''0'', Str ''a b c d''), (''2'', Str ''x''), (''k'', Str ''y''), (''z'', Null)]"
    by (simp add: record_entries_def key_precedes_def array_index_def is_digit_def
        dec_value_def digit_of_def)
  have e: "extractPayloadChunks \<lparr>apiKey = ''key'', apiUrl = ''url'', batchSize = 2, idealBatchItemSize = 3\<rparr>
        [(''0'', Str ''a b c d''), (''2'', Str ''x''), (''k'', Str ''y''), (''z'', Null)]
      = [[(''0'', Str ''a b c d'')], [(''2'', Str ''x''), (''k'', Str ''y'')], [(''z'', Null)]]"
    by (simp add: extractPayloadChunks_def obj_set_def array_index_def is_digit_def
        dec_value_def digit_of_def stays_before_def countWords_def trim_def is_ws_def
        split_ws.simps)
  have c: "concat (extractPayloadChunks \<lparr>apiKey = ''key'', apiUrl = ''url'', batchSize = 2, idealBatchItemSize = 3\<rparr>
        [(''0'', Str ''a b c d''), (''2'', Str ''x''), (''k'', Str ''y''), (''z'', Null)])
      = [(''0'', Str ''a b c d''), (''2'', Str ''x''), (''k'', Str ''y''), (''z'', Null)]"
    by (rule conjunct1 [OF extractPayloadChunks_bijection [OF h]])
  show ?thesis by (intro conjI h e c)
qed

subsection \<open>Numerals and \<^verbatim>\<open>parseInt\<close>\<close>

lemma is_digit_digit_char: "d < 10 \<Longrightarrow> is_digit (digit_char d)"
  by (simp add: is_digit_def digit_char_def)

lemma hex_digit_of_digit_char: "d < 10 \<Longrightarrow> hex_digit_of (digit_char d) = Some d"
  by (simp add: hex_digit_of_def digit_char_def Let_def)

lemma is_digit_facts:
  assumes "is_digit c"
  shows "radix_digit 10 c" and "\<not> is_ws c" and "c \<noteq> CHR ''-''" and "c \<noteq> CHR ''+''"
    and "c \<noteq> CHR ''x''" and "c \<noteq> CHR ''X''" and "c \<noteq> CHR ''_''" and "c \<noteq> CHR ''/''"
    and "c \<noteq> CHR ''#''"
  using assms
  by (auto simp: is_digit_def radix_digit_def hex_digit_of_def Let_def is_ws_def)

lemma show_nat_digits: "list_all is_digit (show_nat n)"
proof (induction n rule: show_nat.induct)
  case (1 n)
  show ?case
  proof (cases "n < 10")
    case True
    then show ?thesis by (subst show_nat.simps) (simp add: is_digit_digit_char)
  next
    case False
    have "is_digit (digit_char (n mod 10))" by (rule is_digit_digit_char) simp
    then show ?thesis using 1 False by (subst show_nat.simps) simp
  qed
qed

lemma show_nat_nonempty: "show_nat n \<noteq> []"
  by (subst show_nat.simps) simp

lemma show_nat_no_char: "\<not> is_digit c \<Longrightarrow> c \<notin> set (show_nat n)"
  using show_nat_digits [of n] by (auto simp: list_all_iff)

lemma radix_value_snoc: "radix_value r (s @ [c]) = r * radix_value r s + the (hex_digit_of c)"
  by (simp add: radix_value_def)

lemma radix_value_show_nat: "radix_value 10 (show_nat n) = n"
proof (induction n rule: show_nat.induct)
  case (1 n)
  show ?case
  proof (cases "n < 10")
    case True
    then show ?thesis
      by (subst show_nat.simps) (simp add: radix_value_def hex_digit_of_digit_char)
  next
    case False
    have "radix_value 10 (show_nat (n div 10) @ [digit_char (n mod 10)])
        = 10 * (n div 10) + n mod 10"
      using 1 False by (simp add: radix_value_snoc hex_digit_of_digit_char)
    then show ?thesis using False by (subst show_nat.simps) simp
  qed
qed

lemma parseInt_digits:
  assumes "list_all is_digit s" and "s \<noteq> []"
  shows "parseInt s = Some (int (radix_value 10 s))"
proof -
  obtain c cs where s: "s = c # cs" using assms(2) by (cases s) auto
  have c: "is_digit c" using assms(1) s by simp
  have s1: "dropWhile is_ws s = s" using s is_digit_facts(2) [OF c] by simp
  have nosign: "hd s \<noteq> CHR ''-''" "hd s \<noteq> CHR ''+''"
    using s is_digit_facts(3,4) [OF c] by simp_all
  have nohex: "take 2 s \<noteq> ''0x'' \<and> take 2 s \<noteq> ''0X''"
  proof (cases cs)
    case Nil
    then show ?thesis using s by simp
  next
    case (Cons c' cs')
    then have "is_digit c'" using assms(1) s by simp
    then show ?thesis
      using s Cons is_digit_facts(5,6) by (auto simp: numeral_2_eq_2)
  qed
  have "\<forall>x \<in> set s. radix_digit 10 x"
    using assms(1) is_digit_facts(1) by (auto simp: list_all_iff)
  then have tw: "takeWhile (radix_digit 10) s = s" by (simp add: takeWhile_eq_all_conv)
  show ?thesis
    by (simp add: parseInt_def Let_def s1 nosign nohex tw assms(2))
qed

lemma parseInt_show_nat: "parseInt (show_nat n) = Some (int n)"
  using parseInt_digits [OF show_nat_digits show_nat_nonempty]
  by (simp add: radix_value_show_nat)

subsection \<open>Splitting\<close>

lemma split_on_no_sep: "c \<notin> set s \<Longrightarrow> split_on c s = [s]"
  by (induction s) auto

lemma split_on_append_sep: "c \<notin> set s \<Longrightarrow> split_on c (s @ c # t) = s # split_on c t"
  by (induction s) auto

subsection \<open>The per-chunk call\<close>

lemma catch_abort_Error: "\<not> includes_str m ''aborted'' \<Longrightarrow> catch_abort (Error m) = Error m"
  by (simp add: catch_abort_def Error_def)

text \<open>
  Claim C4 states that every non-success status other than 400 raises a failure carrying the
  raw response body, that a success response without \<^verbatim>\<open>data\<close> but with an \<^verbatim>\<open>error\<close>
  field raises that error, and that any other success response returns its \<^verbatim>\<open>data\<close> field.
  A status 500 whose body contains \<^verbatim>\<open>aborted\<close> raises \<^verbatim>\<open>Localization was aborted\<close> instead
  of the body; an empty \<^verbatim>\<open>error\<close> string raises nothing; a falsy \<^verbatim>\<open>data\<close> field is not
  returned.
\<close>

theorem localizeChunk_failure_replaced:
  "\<not> ok (failure_response 500 ''Internal Server Error'' ''upstream connection aborted'')
   \<and> status (failure_response 500 ''Internal Server Error'' ''upstream connection aborted'') \<noteq> 400
   \<and> res_text (failure_response 500 ''Internal Server Error'' ''upstream connection aborted'')
       = Inr ''upstream connection aborted''
   \<and> fst (localizeChunk example_config
        (example_env (\<lambda>n req. Inr (failure_response 500 ''Internal Server Error''
            ''upstream connection aborted'')) None)
        (Some ''en'') ''es'' [(''greeting'', Str ''Hello'')] None ''wf1'' False [])
       = Inl (Error ''Localization was aborted'')
   \<and> fst (localizeChunk example_config
        (example_env (\<lambda>n req. Inr (failure_response 500 ''Internal Server Error''
            ''upstream connection aborted'')) None)
        (Some ''en'') ''es'' [(''greeting'', Str ''Hello'')] None ''wf1'' False [])
       \<noteq> Inl (Error ''upstream connection aborted'')
   \<and> fst (localizeChunk example_config
        (example_env (\<lambda>n req. Inr (success_response (Obj [(''error'', Str '''')]))) None)
        (Some ''en'') ''es'' [(''greeting'', Str ''Hello'')] None ''wf1'' False [])
       = Inr (Obj [])
   \<and> fst (localizeChunk example_config
        (example_env (\<lambda>n req. Inr (success_response (Obj [(''data'', Num 0)]))) None)
        (Some ''en'') ''es'' [(''greeting'', Str ''Hello'')] None ''wf1'' False [])
       = Inr (Obj [])"
  by (simp add: localizeChunk_def localizeChunk_try_def example_env_def failure_response_def
      success_response_def signal_aborted_def catch_abort_def Error_def aborted_error_def
      get_prop_def Let_def)

text \<open>
  Claim C4, amended. For every response that \<^verbatim>\<open>localizeChunk\<close> processes: a non-success
  response with status 400 raises \<^verbatim>\<open>Invalid request: \<close> followed by the status text; any
  other non-success response raises a failure whose message is the raw body text; a success
  response whose \<^verbatim>\<open>data\<close> is falsy (absent included) and whose \<^verbatim>\<open>error\<close> is truthy raises a
  failure carrying that error as a string, so \<^verbatim>\<open>{"error":"rate limited"}\<close> raises
  \<^verbatim>\<open>rate limited\<close>; any other success response with a body other than \<^verbatim>\<open>null\<close> returns
  \<^verbatim>\<open>data\<close> when it is truthy and an empty mapping otherwise. Each failure is raised as
  described when its message does not contain \<^verbatim>\<open>aborted\<close>.
\<close>

theorem localizeChunk_response_cases:
  assumes na: "\<not> signal_aborted e (length calls)"
    and fe: "fetch e (length calls) (i18n_request cfg src tgt d r w f) = Inr res"
  shows
    "(\<not> ok res \<and> status res = 400
        \<and> \<not> includes_str (''Invalid request: '' @ statusText res) ''aborted''
      \<longrightarrow> fst (localizeChunk cfg e src tgt d r w f calls)
            = Inl (Error (''Invalid request: '' @ statusText res)))
   \<and> (\<forall>body. \<not> ok res \<and> status res \<noteq> 400 \<and> res_text res = Inr body
        \<and> \<not> includes_str body ''aborted''
      \<longrightarrow> fst (localizeChunk cfg e src tgt d r w f calls) = Inl (Error body))
   \<and> (\<forall>j dv ev. ok res \<and> res_json res = Inr j
        \<and> get_prop j ''data'' = Inr dv \<and> get_prop j ''error'' = Inr ev
        \<and> \<not> truthy dv \<and> truthy ev \<and> \<not> includes_str (toString ev) ''aborted''
      \<longrightarrow> fst (localizeChunk cfg e src tgt d r w f calls) = Inl (Error (toString ev)))
   \<and> (ok res \<and> res_json res = Inr (Obj [(''error'', Str ''rate limited'')])
      \<longrightarrow> fst (localizeChunk cfg e src tgt d r w f calls) = Inl (Error ''rate limited''))
   \<and> (\<forall>j dv ev. ok res \<and> res_json res = Inr j
        \<and> get_prop j ''data'' = Inr dv \<and> get_prop j ''error'' = Inr ev
        \<and> (truthy dv \<or> \<not> truthy ev)
      \<longrightarrow> fst (localizeChunk cfg e src tgt d r w f calls)
            = Inr (if truthy dv then dv else Obj []))"
proof -
  have unfold: "fst (localizeChunk cfg e src tgt d r w f calls)
      = (case localizeChunk_try (Inr res) of Inl err \<Rightarrow> Inl (catch_abort err) | Inr v \<Rightarrow> Inr v)"
    using na fe by (simp add: localizeChunk_def Let_def split: sum.splits)
  have c1: "\<not> ok res \<and> status res = 400
        \<and> \<not> includes_str (''Invalid request: '' @ statusText res) ''aborted''
      \<longrightarrow> fst (localizeChunk cfg e src tgt d r w f calls)
            = Inl (Error (''Invalid request: '' @ statusText res))"
    by (simp add: unfold localizeChunk_try_def catch_abort_Error)
  have c2: "\<forall>body. \<not> ok res \<and> status res \<noteq> 400 \<and> res_text res = Inr body
        \<and> \<not> includes_str body ''aborted''
      \<longrightarrow> fst (localizeChunk cfg e src tgt d r w f calls) = Inl (Error body)"
    by (simp add: unfold localizeChunk_try_def catch_abort_Error)
  have c3: "\<forall>j dv ev. ok res \<and> res_json res = Inr j
        \<and> get_prop j ''data'' = Inr dv \<and> get_prop j ''error'' = Inr ev
        \<and> \<not> truthy dv \<and> truthy ev \<and> \<not> includes_str (toString ev) ''aborted''
      \<longrightarrow> fst (localizeChunk cfg e src tgt d r w f calls) = Inl (Error (toString ev))"
    by (simp add: unfold localizeChunk_try_def catch_abort_Error)
  have c4: "ok res \<and> res_json res = Inr (Obj [(''error'', Str ''rate limited'')])
      \<longrightarrow> fst (localizeChunk cfg e src tgt d r w f calls) = Inl (Error ''rate limited'')"
    by (simp add: unfold localizeChunk_try_def get_prop_def catch_abort_Error)
  have c5: "\<forall>j dv ev. ok res \<and> res_json res = Inr j
        \<and> get_prop j ''data'' = Inr dv \<and> get_prop j ''error'' = Inr ev
        \<and> (truthy dv \<or> \<not> truthy ev)
      \<longrightarrow> fst (localizeChunk cfg e src tgt d r w f calls)
            = Inr (if truthy dv then dv else Obj [])"
    by (auto simp add: unfold localizeChunk_try_def)
  show ?thesis by (intro conjI c1 c2 c3 c4 c5)
qed


text \<open>The four cases of claim C4 at a status 400, a status 500 and two success responses.\<close>

theorem localizeChunk_response_cases_witness:
  "fst (localizeChunk example_config
        (example_env (\<lambda>n req. Inr (failure_response 400 ''Bad Request'' ''{}'')) None)
        (Some ''en'') ''es'' [(''greeting'', Str ''Hello'')] None ''wf1'' False [])
     = Inl (Error ''Invalid request: Bad Request'')
   \<and> fst (localizeChunk example_config
        (example_env (\<lambda>n req. Inr (failure_response 500 ''Internal Server Error''
            ''quota exceeded'')) None)
        (Some ''en'') ''es'' [(''greeting'', Str ''Hello'')] None ''wf1'' False [])
     = Inl (Error ''quota exceeded'')
   \<and> fst (localizeChunk example_config
        (example_env (\<lambda>n req. Inr (success_response (Obj [(''error'', Str ''rate limited'')])))
           None)
        (Some ''en'') ''es'' [(''greeting'', Str ''Hello'')] None ''wf1'' False [])
     = Inl (Error ''rate limited'')
   \<and> fst (localizeChunk example_config
        (example_env (\<lambda>n req. Inr (success_response
            (Obj [(''data'', Obj [(''greeting'', Str ''Hola'')])]))) None)
        (Some ''en'') ''es'' [(''greeting'', Str ''Hello'')] None ''wf1'' False [])
     = Inr (Obj [(''greeting'', Str ''Hola'')])"
proof -
  let ?run = "\<lambda>res. fst (localizeChunk example_config (example_env (\<lambda>n req. Inr res) None)
        (Some ''en'') ''es'' [(''greeting'', Str ''Hello'')] None ''wf1'' False [])"
  have na: "\<not> signal_aborted (example_env (\<lambda>n req. Inr res) None) (length [])" for res
    by (simp add: signal_aborted_def example_env_def)
  have fe: "fetch (example_env (\<lambda>n req. Inr res) None) (length [])
      (i18n_request example_config (Some ''en'') ''es'' [(''greeting'', Str ''Hello'')] None
         ''wf1'' False) = Inr res" for res
    by (simp add: example_env_def)
  note cases = localizeChunk_response_cases [OF na fe]
  have w1: "?run (failure_response 400 ''Bad Request'' ''{}'')
      = Inl (Error ''Invalid request: Bad Request'')"
    using cases [of "failure_response 400 ''Bad Request'' ''{}''"]
    by (simp add: failure_response_def)
  have w2: "?run (failure_response 500 ''Internal Server Error'' ''quota exceeded'')
      = Inl (Error ''quota exceeded'')"
    using cases [of "failure_response 500 ''Internal Server Error'' ''quota exceeded''"]
    by (simp add: failure_response_def)
  have w3: "?run (success_response (Obj [(''error'', Str ''rate limited'')]))
      = Inl (Error ''rate limited'')"
    using cases [of "success_response (Obj [(''error'', Str ''rate limited'')])"]
    by (simp add: success_response_def)
  have w4: "?run (success_response (Obj [(''data'', Obj [(''greeting'', Str ''Hola'')])]))
      = Inr (Obj [(''greeting'', Str ''Hola'')])"
    using cases [of "success_response (Obj [(''data'', Obj [(''greeting'', Str ''Hola'')])])"]
    by (simp add: success_response_def get_prop_def)
  show ?thesis using w1 w2 w3 w4 by simp
qed

text \<open>
  Claim C9. In \<^verbatim>\<open>localizeChunk\<close>, every failure thrown inside the \<^verbatim>\<open>try\<close> block whose
  message contains \<^verbatim>\<open>aborted\<close> is replaced by the failure \<^verbatim>\<open>Localization was aborted\<close>.
  This holds for the failure built from the body of a non-success response, also when no
  signal was passed to the call.
\<close>

theorem localizeChunk_aborted_substring:
  "(\<forall>err. localizeChunk_try (fetch e (length calls) (i18n_request cfg src tgt d r w f)) = Inl err
          \<and> includes_str (err_message err) ''aborted''
        \<longrightarrow> fst (localizeChunk cfg e src tgt d r w f calls) = Inl aborted_error)
   \<and> (\<forall>res body. signal e = None
          \<and> fetch e (length calls) (i18n_request cfg src tgt d r w f) = Inr res
          \<and> \<not> ok res \<and> status res \<noteq> 400 \<and> res_text res = Inr body
          \<and> includes_str body ''aborted''
        \<longrightarrow> fst (localizeChunk cfg e src tgt d r w f calls) = Inl aborted_error)
   \<and> aborted_error = Error ''Localization was aborted''"
proof (intro conjI allI impI)
  fix err
  assume a: "localizeChunk_try (fetch e (length calls) (i18n_request cfg src tgt d r w f)) = Inl err
          \<and> includes_str (err_message err) ''aborted''"
  then have ne: "err_message err \<noteq> []" by (cases "err_message err") auto
  show "fst (localizeChunk cfg e src tgt d r w f calls) = Inl aborted_error"
    using a ne by (simp add: localizeChunk_def Let_def catch_abort_def)
next
  fix res body
  assume a: "signal e = None
          \<and> fetch e (length calls) (i18n_request cfg src tgt d r w f) = Inr res
          \<and> \<not> ok res \<and> status res \<noteq> 400 \<and> res_text res = Inr body
          \<and> includes_str body ''aborted''"
  then have ne: "body \<noteq> []" by (cases body) auto
  have t: "localizeChunk_try (fetch e (length calls) (i18n_request cfg src tgt d r w f))
      = Inl (Error body)"
    using a by (simp add: localizeChunk_try_def)
  show "fst (localizeChunk cfg e src tgt d r w f calls) = Inl aborted_error"
    using a ne t
    by (simp add: localizeChunk_def Let_def catch_abort_def signal_aborted_def Error_def)
next
  show "aborted_error = Error ''Localization was aborted''" by (simp add: aborted_error_def)
qed

text \<open>Claim C9 at a status 502 whose body contains the substring, with no signal.\<close>

theorem localizeChunk_aborted_substring_witness:
  "signal (example_env (\<lambda>n req. Inr (failure_response 502 ''Bad Gateway''
        ''upstream connection aborted'')) None) = None
   \<and> includes_str ''upstream connection aborted'' ''aborted''
   \<and> fst (localizeChunk example_config
        (example_env (\<lambda>n req. Inr (failure_response 502 ''Bad Gateway''
            ''upstream connection aborted'')) None)
        (Some ''en'') ''es'' [(''greeting'', Str ''Hello'')] None ''wf1'' False [])
     = Inl aborted_error"
proof -
  let ?e = "example_env (\<lambda>n req. Inr (failure_response 502 ''Bad Gateway''
        ''upstream connection aborted'')) None"
  have h: "signal ?e = None
      \<and> fetch ?e (length []) (i18n_request example_config (Some ''en'') ''es''
            [(''greeting'', Str ''Hello'')] None ''wf1'' False)
          = Inr (failure_response 502 ''Bad Gateway'' ''upstream connection aborted'')
      \<and> \<not> ok (failure_response 502 ''Bad Gateway'' ''upstream connection aborted'')
      \<and> status (failure_response 502 ''Bad Gateway'' ''upstream connection aborted'') \<noteq> 400
      \<and> res_text (failure_response 502 ''Bad Gateway'' ''upstream connection aborted'')
          = Inr ''upstream connection aborted''
      \<and> includes_str ''upstream connection aborted'' ''aborted''"
    by (simp add: example_env_def failure_response_def)
  have "fst (localizeChunk example_config ?e (Some ''en'') ''es''
        [(''greeting'', Str ''Hello'')] None ''wf1'' False []) = Inl aborted_error"
    using localizeChunk_aborted_substring [of ?e "[]" example_config "Some ''en''" "''es''"
        "[(''greeting'', Str ''Hello'')]" None "''wf1''" False] h
    by blast
  then show ?thesis using h by simp
qed

subsection \<open>Cancellation\<close>

lemma localizeChunk_calls:
  "\<not> signal_aborted e (length calls) \<Longrightarrow>
   snd (localizeChunk cfg e src tgt d r w f calls) = calls @ [i18n_request cfg src tgt d r w f]"
  by (simp add: localizeChunk_def Let_def split: sum.splits)

lemma localizeRaw_loop_aborted:
  "signal_aborted e (length calls) \<Longrightarrow>
   localizeRaw_loop cfg e fps ps w n (chunk # rest) i processed calls = (Inl aborted_error, calls)"
  by simp

text \<open>
  Claim C5. \<^verbatim>\<open>_localizeRaw\<close> checks the signal on entry and before every chunk. A signal that
  is aborted on entry raises the cancellation failure and no provider call is made. A signal
  that is not aborted on entry and is aborted once the first chunk has completed, where two
  or more chunks remain to be sent in all (three in the claim), raises the cancellation failure with
  exactly one provider call made, the one for the first chunk.
\<close>

theorem localizeRaw_cancellation:
  "(signal_aborted e (length calls)
      \<longrightarrow> localizeRaw cfg e payload ps calls = (Inl aborted_error, calls))
   \<and> (\<forall>fps w n chunk rest i processed.
        signal_aborted e (length calls)
      \<longrightarrow> localizeRaw_loop cfg e fps ps w n (chunk # rest) i processed calls
            = (Inl aborted_error, calls))
   \<and> (\<forall>fp (fps :: params) c1 c2 rest v.
        \<not> signal_aborted e 0 \<and> signal_aborted e 1
        \<and> payloadSchema_parse e payload = Inr fp
        \<and> localizationParamsSchema_parse e ps = Inr fps
        \<and> extractPayloadChunks cfg fp = c1 # c2 # rest
        \<and> fst (localizeChunk cfg e (sourceLocale fps) (targetLocale fps) c1 (reference ps)
                 (createId e) (case fast ps of Some b \<Rightarrow> b | None \<Rightarrow> False) []) = Inr v
        \<and> report_progress e 1 (length (c1 # c2 # rest)) c1 v = None
      \<longrightarrow> localizeRaw cfg e payload ps []
            = (Inl aborted_error,
               [i18n_request cfg (sourceLocale fps) (targetLocale fps) c1 (reference ps)
                  (createId e) (case fast ps of Some b \<Rightarrow> b | None \<Rightarrow> False)]))"
proof (intro conjI allI impI)
  assume "signal_aborted e (length calls)"
  then show "localizeRaw cfg e payload ps calls = (Inl aborted_error, calls)"
    by (simp add: localizeRaw_def)
next
  fix fps w n chunk rest i processed
  assume "signal_aborted e (length calls)"
  then show "localizeRaw_loop cfg e fps ps w n (chunk # rest) i processed calls
      = (Inl aborted_error, calls)"
    by simp
next
  fix fp and fps :: params and c1 c2 rest v
  let ?f = "case fast ps of Some b \<Rightarrow> b | None \<Rightarrow> False"
  let ?req = "i18n_request cfg (sourceLocale fps) (targetLocale fps) c1 (reference ps)
      (createId e) ?f"
  assume a: "\<not> signal_aborted e 0 \<and> signal_aborted e 1
        \<and> payloadSchema_parse e payload = Inr fp
        \<and> localizationParamsSchema_parse e ps = Inr fps
        \<and> extractPayloadChunks cfg fp = c1 # c2 # rest
        \<and> fst (localizeChunk cfg e (sourceLocale fps) (targetLocale fps) c1 (reference ps)
                 (createId e) ?f []) = Inr v
        \<and> report_progress e 1 (length (c1 # c2 # rest)) c1 v = None"
  then have na: "\<not> signal_aborted e (length ([] :: request list))" by simp
  have chunk1: "localizeChunk cfg e (sourceLocale fps) (targetLocale fps) c1 (reference ps)
      (createId e) ?f [] = (Inr v, [?req])"
    using a localizeChunk_calls [OF na, of cfg "sourceLocale fps" "targetLocale fps" c1
        "reference ps" "createId e" ?f]
    by (simp add: prod_eq_iff)
  have loop: "localizeRaw_loop cfg e fps ps (createId e) (length (c1 # c2 # rest))
      (c1 # c2 # rest) 0 [] [] = (Inl aborted_error, [?req])"
    using a chunk1 by simp
  show "localizeRaw cfg e payload ps [] = (Inl aborted_error, [?req])"
    using a loop by (simp add: localizeRaw_def Let_def)
qed


text \<open>
  Claim C5 at a payload of three entries that the configuration splits into three chunks, with
  a signal aborted from the first provider call on, and with a signal aborted from the start.
\<close>

theorem localizeRaw_cancellation_witness:
  "extractPayloadChunks example_config
       [(''a'', Str ''one''), (''b'', Str ''two''), (''c'', Str ''three'')]
     = [[(''a'', Str ''one'')], [(''b'', Str ''two'')], [(''c'', Str ''three'')]]
   \<and> localizeRaw example_config (example_env echo_provider (Some (\<lambda>n. 1 \<le> n)))
       [(''a'', Str ''one''), (''b'', Str ''two''), (''c'', Str ''three'')] example_params []
     = (Inl aborted_error,
        [i18n_request example_config (Some ''en'') ''es'' [(''a'', Str ''one'')] None ''wf1''
           False])
   \<and> localizeRaw example_config (example_env echo_provider (Some (\<lambda>n. True)))
       [(''a'', Str ''one''), (''b'', Str ''two''), (''c'', Str ''three'')] example_params []
     = (Inl aborted_error, [])"
proof -
  let ?payload = "[(''a'', Str ''one''), (''b'', Str ''two''), (''c'', Str ''three'')]"
  let ?e = "example_env echo_provider (Some (\<lambda>n. 1 \<le> n))"
  let ?ea = "example_env echo_provider (Some (\<lambda>n. True))"
  have chunks: "extractPayloadChunks example_config ?payload
      = [(''a'', Str ''one'')] # [(''b'', Str ''two'')] # [[(''c'', Str ''three'')]]"
    by (simp add: extractPayloadChunks_def example_config_def obj_set_def array_index_def
        is_digit_def countWords_def trim_def is_ws_def split_ws.simps)
  have sig: "\<not> signal_aborted ?e 0 \<and> signal_aborted ?e 1"
    by (simp add: signal_aborted_def example_env_def)
  have parse: "payloadSchema_parse ?e ?payload = Inr ?payload
      \<and> localizationParamsSchema_parse ?e example_params = Inr example_params"
    by (simp add: example_env_def)
  have first: "fst (localizeChunk example_config ?e (sourceLocale example_params)
      (targetLocale example_params) [(''a'', Str ''one'')] (reference example_params)
      (createId ?e) (case fast example_params of Some b \<Rightarrow> b | None \<Rightarrow> False) [])
      = Inr (Obj [(''a'', Str ''one'')])"
    by (simp add: localizeChunk_def localizeChunk_try_def signal_aborted_def example_env_def
        echo_provider_def success_response_def get_prop_def i18n_request_def Let_def)
  have cb: "report_progress ?e 1 (length ([(''a'', Str ''one'')] # [(''b'', Str ''two'')]
            # [[(''c'', Str ''three'')]])) [(''a'', Str ''one'')] (Obj [(''a'', Str ''one'')])
      = None"
    by (simp add: report_progress_def example_env_def)
  have w1: "localizeRaw example_config ?e ?payload example_params []
      = (Inl aborted_error,
         [i18n_request example_config (sourceLocale example_params)
            (targetLocale example_params) [(''a'', Str ''one'')] (reference example_params)
            (createId ?e) (case fast example_params of Some b \<Rightarrow> b | None \<Rightarrow> False)])"
    using localizeRaw_cancellation [of ?e "[]" example_config ?payload example_params]
      sig parse chunks first cb
    by blast
  have aborted0: "signal_aborted ?ea (length ([] :: request list))"
    by (simp add: signal_aborted_def example_env_def)
  have w0: "localizeRaw example_config ?ea ?payload example_params [] = (Inl aborted_error, [])"
    using localizeRaw_cancellation [of ?ea "[]" example_config ?payload example_params]
      aborted0
    by blast
  have req: "i18n_request example_config (sourceLocale example_params)
            (targetLocale example_params) [(''a'', Str ''one'')] (reference example_params)
            (createId ?e) (case fast example_params of Some b \<Rightarrow> b | None \<Rightarrow> False)
      = i18n_request example_config (Some ''en'') ''es'' [(''a'', Str ''one'')] None ''wf1''
           False"
    by (simp add: example_params_def example_env_def)
  show ?thesis using chunks w1 w0 req by simp
qed

subsection \<open>Chat transcripts\<close>

lemma extractPayloadChunks_chat:
  "extractPayloadChunks cfg [(''chat'', v)] = [[(''chat'', v)]]"
  by (simp add: extractPayloadChunks_def obj_set_def array_index_def is_digit_def)

lemma message_value_inject: "message_value x = message_value y \<Longrightarrow> x = y"
  by (cases x, cases y) (simp add: message_value_def)

lemma message_value_inj: "map message_value xs = map message_value ys \<Longrightarrow> xs = ys"
proof -
  have "inj message_value" by (rule injI) (rule message_value_inject)
  then show "map message_value xs = map message_value ys \<Longrightarrow> xs = ys"
    by (simp add: inj_map_eq_map)
qed

text \<open>
  Claim C2 states that the data sent to the provider holds each text under a key
  \<^verbatim>\<open>chat_<index>\<close> and never holds the speaker names. The code passes \<^verbatim>\<open>{ chat }\<close> to
  \<^verbatim>\<open>_localizeRaw\<close>: the transcripts of Alice and of Bob with the same text give different
  requests, and the request of Alice carries her name.
\<close>

theorem localizeChat_sends_names:
  "map req_data (snd (localizeChat example_config (example_env echo_provider None)
       [\<lparr> chat_name = ''Alice'', chat_text = ''Hi'' \<rparr>] example_params []))
     \<noteq> map req_data (snd (localizeChat example_config (example_env echo_provider None)
       [\<lparr> chat_name = ''Bob'', chat_text = ''Hi'' \<rparr>] example_params []))
   \<and> map req_data (snd (localizeChat example_config (example_env echo_provider None)
       [\<lparr> chat_name = ''Alice'', chat_text = ''Hi'' \<rparr>] example_params []))
     = [[(''chat'', Arr [Obj [(''name'', Str ''Alice''), (''text'', Str ''Hi'')]])]]"
  by (simp add: localizeChat_def localizeRaw_def extractPayloadChunks_chat Let_def
      localizeChunk_def localizeChunk_try_def signal_aborted_def example_env_def
      echo_provider_def success_response_def get_prop_def i18n_request_def
      message_value_def example_params_def report_progress_def)


lemma localizeChunk_cases:
  assumes "\<not> signal_aborted e (length calls)"
  obtains err where "localizeChunk cfg e src tgt d r w f calls
      = (Inl err, calls @ [i18n_request cfg src tgt d r w f])"
  | v where "localizeChunk cfg e src tgt d r w f calls
      = (Inr v, calls @ [i18n_request cfg src tgt d r w f])"
proof (cases "localizeChunk_try (fetch e (length calls) (i18n_request cfg src tgt d r w f))")
  case (Inl err)
  then have "localizeChunk cfg e src tgt d r w f calls
      = (Inl (catch_abort err), calls @ [i18n_request cfg src tgt d r w f])"
    using assms by (simp add: localizeChunk_def Let_def)
  then show ?thesis by (rule that(1))
next
  case (Inr v)
  then have "localizeChunk cfg e src tgt d r w f calls
      = (Inr v, calls @ [i18n_request cfg src tgt d r w f])"
    using assms by (simp add: localizeChunk_def Let_def)
  then show ?thesis by (rule that(2))
qed

text \<open>One chunk makes one provider call, whatever its outcome.\<close>

lemma localizeRaw_loop_single:
  assumes "\<not> signal_aborted e (length calls)"
  shows "snd (localizeRaw_loop cfg e fps ps w n [chunk] i processed calls)
      = calls @ [i18n_request cfg (sourceLocale fps) (targetLocale fps) chunk (reference ps) w
                   (case fast ps of Some b \<Rightarrow> b | None \<Rightarrow> False)]"
proof (rule localizeChunk_cases [OF assms, of cfg "sourceLocale fps" "targetLocale fps" chunk
      "reference ps" w "case fast ps of Some b \<Rightarrow> b | None \<Rightarrow> False"])
  fix err
  assume "localizeChunk cfg e (sourceLocale fps) (targetLocale fps) chunk (reference ps) w
        (case fast ps of Some b \<Rightarrow> b | None \<Rightarrow> False) calls
      = (Inl err, calls @ [i18n_request cfg (sourceLocale fps) (targetLocale fps) chunk
            (reference ps) w (case fast ps of Some b \<Rightarrow> b | None \<Rightarrow> False)])"
  then show ?thesis using assms by simp
next
  fix v
  assume c: "localizeChunk cfg e (sourceLocale fps) (targetLocale fps) chunk (reference ps) w
        (case fast ps of Some b \<Rightarrow> b | None \<Rightarrow> False) calls
      = (Inr v, calls @ [i18n_request cfg (sourceLocale fps) (targetLocale fps) chunk
            (reference ps) w (case fast ps of Some b \<Rightarrow> b | None \<Rightarrow> False)])"
  show ?thesis
  proof (cases "report_progress e (i + 1) n chunk v")
    case None
    then show ?thesis using assms c by simp
  next
    case (Some err)
    then show ?thesis using assms c by simp
  qed
qed

text \<open>
  Claim C2, amended. For every chat transcript passed to \<^verbatim>\<open>localizeChat\<close> (with a signal
  that is not aborted and schemas that accept the input), exactly one request is sent, and its
  data is the payload with the single key \<^verbatim>\<open>chat\<close> whose value is the transcript itself,
  every message as \<^verbatim>\<open>{ name, text }\<close>. The speaker names are part of that data: two
  different transcripts, also two that differ only in a name, give different data.
\<close>

theorem localizeChat_request:
  assumes na: "\<not> signal_aborted e (length calls)"
    and pp: "payloadSchema_parse e [(''chat'', Arr (map message_value chat))]
               = Inr [(''chat'', Arr (map message_value chat))]"
    and lp: "localizationParamsSchema_parse e ps = Inr fps"
  shows "snd (localizeChat cfg e chat ps calls)
      = calls @ [i18n_request cfg (sourceLocale fps) (targetLocale fps)
                   [(''chat'', Arr (map message_value chat))] (reference ps) (createId e)
                   (case fast ps of Some b \<Rightarrow> b | None \<Rightarrow> False)]
    \<and> (\<forall>other. other \<noteq> chat
          \<longrightarrow> [(''chat'', Arr (map message_value other))]
                \<noteq> [(''chat'', Arr (map message_value chat))])
    \<and> (\<forall>m. message_value m = Obj [(''name'', Str (chat_name m)), (''text'', Str (chat_text m))])"
proof (intro conjI allI impI)
  let ?f = "case fast ps of Some b \<Rightarrow> b | None \<Rightarrow> False"
  let ?data = "[(''chat'', Arr (map message_value chat))]"
  let ?req = "i18n_request cfg (sourceLocale fps) (targetLocale fps) ?data (reference ps)
      (createId e) ?f"
  have loop: "snd (localizeRaw_loop cfg e fps ps (createId e) (length [?data]) [?data] 0 []
      calls) = calls @ [?req]"
    by (rule localizeRaw_loop_single [OF na])
  have "snd (localizeRaw cfg e ?data ps calls) = calls @ [?req]"
  proof (cases "localizeRaw_loop cfg e fps ps (createId e) (length [?data]) [?data] 0 [] calls")
    case (Pair res calls')
    then have "calls' = calls @ [?req]" using loop by simp
    then show ?thesis
      using na pp lp Pair
      by (cases res) (simp_all add: localizeRaw_def extractPayloadChunks_chat Let_def)
  qed
  then show "snd (localizeChat cfg e chat ps calls) = calls @ [?req]"
  proof (cases "localizeRaw cfg e ?data ps calls")
    case (Pair res calls')
    assume "snd (localizeRaw cfg e ?data ps calls) = calls @ [?req]"
    then show ?thesis using Pair by (cases res) (simp_all add: localizeChat_def)
  qed
next
  fix other :: "string chat_message list"
  assume "other \<noteq> chat"
  then show "[(''chat'', Arr (map message_value other))]
      \<noteq> [(''chat'', Arr (map message_value chat))]"
    using message_value_inj [of other chat] by auto
next
  fix m :: "string chat_message"
  show "message_value m = Obj [(''name'', Str (chat_name m)), (''text'', Str (chat_text m))]"
    by (simp add: message_value_def)
qed

text \<open>Claim C2, amended, at the transcript of Alice.\<close>

theorem localizeChat_request_witness:
  "snd (localizeChat example_config (example_env echo_provider None)
       [\<lparr> chat_name = ''Alice'', chat_text = ''Hi'' \<rparr>] example_params [])
     = [i18n_request example_config (Some ''en'') ''es''
          [(''chat'', Arr [Obj [(''name'', Str ''Alice''), (''text'', Str ''Hi'')]])]
          None ''wf1'' False]"
proof -
  let ?e = "example_env echo_provider None"
  let ?chat = "[\<lparr> chat_name = ''Alice'', chat_text = ''Hi'' \<rparr>]"
  have na: "\<not> signal_aborted ?e (length ([] :: request list))"
    by (simp add: signal_aborted_def example_env_def)
  have pp: "payloadSchema_parse ?e [(''chat'', Arr (map message_value ?chat))]
      = Inr [(''chat'', Arr (map message_value ?chat))]"
    by (simp add: example_env_def)
  have lp: "localizationParamsSchema_parse ?e example_params = Inr example_params"
    by (simp add: example_env_def)
  have "snd (localizeChat example_config ?e ?chat example_params [])
      = [] @ [i18n_request example_config (sourceLocale example_params)
                (targetLocale example_params) [(''chat'', Arr (map message_value ?chat))]
                (reference example_params) (createId ?e)
                (case fast example_params of Some b \<Rightarrow> b | None \<Rightarrow> False)]"
    by (rule conjunct1 [OF localizeChat_request [OF na pp lp]])
  then show ?thesis
    by (simp add: example_params_def example_env_def message_value_def)
qed


lemma split_chat_key: "nth_opt (split_on CHR ''_'' (''chat_'' @ show_nat i)) 1 = Some (show_nat i)"
proof -
  have "CHR ''_'' \<notin> set (show_nat i)"
    by (rule show_nat_no_char) (simp add: is_digit_def)
  then have "split_on CHR ''_'' (show_nat i) = [show_nat i]" by (rule split_on_no_sep)
  moreover have "split_on CHR ''_'' (''chat'' @ CHR ''_'' # show_nat i)
      = ''chat'' # split_on CHR ''_'' (show_nat i)"
    by (rule split_on_append_sep) simp
  ultimately show ?thesis by (simp add: nth_opt_def)
qed

lemma recombine_chat_key:
  "recombine chat ((''chat_'' @ show_nat i, v) # rest)
     = (if i < length chat
        then (case recombine chat rest of
                Inl err \<Rightarrow> Inl err
              | Inr out \<Rightarrow> Inr (\<lparr> chat_name = chat_name (chat ! i), chat_text = v \<rparr> # out))
        else Inl (cannot_read_property ''undefined'' ''name''))"
  using split_chat_key [of i]
  by (simp add: parseInt_opt_def parseInt_show_nat js_nth_def del: show_nat.simps)

lemma recombine_indexed:
  "list_all (\<lambda>(i, v). i < length chat) ivs \<Longrightarrow>
   recombine chat (map (\<lambda>(i, v). (''chat_'' @ show_nat i, v)) ivs)
     = Inr (map (\<lambda>(i, v). \<lparr> chat_name = chat_name (chat ! i), chat_text = v \<rparr>) ivs)"
proof (induction ivs)
  case Nil
  then show ?case by simp
next
  case (Cons iv ivs)
  obtain i v where iv: "iv = (i, v)" by (cases iv)
  have "i < length chat" and "list_all (\<lambda>(i, v). i < length chat) ivs"
    using Cons.prems iv by simp_all
  then show ?case
    using Cons.IH iv recombine_chat_key [of chat i v] by simp
qed

text \<open>
  Claim C10. The recombination of \<^verbatim>\<open>localizeChat\<close> returns a transcript when every key of
  the localized result is \<^verbatim>\<open>chat_<i>\<close> with \<open>i\<close> an index of the original chat: each text
  gets the name of the message at its index. A result that holds the key \<^verbatim>\<open>chat\<close>, or a
  key \<^verbatim>\<open>chat_<i>\<close> with \<open>i\<close> past the end of the chat, reads \<^verbatim>\<open>name\<close> of a missing
  message: the recombination throws a \<^verbatim>\<open>TypeError\<close>, and the call fails with it.
\<close>

theorem recombine_precondition:
  "(list_all (\<lambda>(i, v). i < length chat) ivs
      \<longrightarrow> recombine chat (map (\<lambda>(i, v). (''chat_'' @ show_nat i, v)) ivs)
            = Inr (map (\<lambda>(i, v). \<lparr> chat_name = chat_name (chat ! i), chat_text = v \<rparr>) ivs))
   \<and> (\<forall>v rest. recombine chat ((''chat'', v) # rest)
          = Inl (cannot_read_property ''undefined'' ''name''))
   \<and> (\<forall>i v rest. length chat \<le> i
          \<longrightarrow> recombine chat ((''chat_'' @ show_nat i, v) # rest)
                = Inl (cannot_read_property ''undefined'' ''name''))
   \<and> (\<forall>v calls'. localizeRaw cfg e [(''chat'', Arr (map message_value chat))] ps calls
            = (Inr [(''chat'', v)], calls')
          \<longrightarrow> localizeChat cfg e chat ps calls
                = (Inl (cannot_read_property ''undefined'' ''name''), calls'))"
proof (intro conjI allI impI)
  assume "list_all (\<lambda>(i, v). i < length chat) ivs"
  then show "recombine chat (map (\<lambda>(i, v). (''chat_'' @ show_nat i, v)) ivs)
      = Inr (map (\<lambda>(i, v). \<lparr> chat_name = chat_name (chat ! i), chat_text = v \<rparr>) ivs)"
    by (rule recombine_indexed)
next
  fix v rest
  show "recombine chat ((''chat'', v) # rest) = Inl (cannot_read_property ''undefined'' ''name'')"
    by (simp add: nth_opt_def parseInt_opt_def js_nth_def)
next
  fix i v rest
  assume "length chat \<le> i"
  then show "recombine chat ((''chat_'' @ show_nat i, v) # rest)
      = Inl (cannot_read_property ''undefined'' ''name'')"
    by (simp only: recombine_chat_key) simp
next
  fix v calls'
  assume "localizeRaw cfg e [(''chat'', Arr (map message_value chat))] ps calls
      = (Inr [(''chat'', v)], calls')"
  then show "localizeChat cfg e chat ps calls
      = (Inl (cannot_read_property ''undefined'' ''name''), calls')"
    by (simp add: localizeChat_def nth_opt_def parseInt_opt_def js_nth_def)
qed

text \<open>
  Claim C10 at a chat of two messages: the keys \<^verbatim>\<open>chat_1\<close> and \<^verbatim>\<open>chat_0\<close> give a
  transcript, the key \<^verbatim>\<open>chat_2\<close> fails, and the echoing provider, which answers with the key
  \<^verbatim>\<open>chat\<close>, makes the call fail.
\<close>

theorem recombine_precondition_witness:
  "recombine [\<lparr> chat_name = ''Alice'', chat_text = ''Hi'' \<rparr>,
              \<lparr> chat_name = ''Bob'', chat_text = ''Bye'' \<rparr>]
       [(''chat_1'', Str ''Adios''), (''chat_0'', Str ''Hola'')]
     = Inr [\<lparr> chat_name = ''Bob'', chat_text = Str ''Adios'' \<rparr>,
            \<lparr> chat_name = ''Alice'', chat_text = Str ''Hola'' \<rparr>]
   \<and> recombine [\<lparr> chat_name = ''Alice'', chat_text = ''Hi'' \<rparr>,
              \<lparr> chat_name = ''Bob'', chat_text = ''Bye'' \<rparr>]
       [(''chat_2'', Str ''Adios'')]
     = Inl (cannot_read_property ''undefined'' ''name'')
   \<and> fst (localizeChat example_config (example_env echo_provider None)
       [\<lparr> chat_name = ''Alice'', chat_text = ''Hi'' \<rparr>,
        \<lparr> chat_name = ''Bob'', chat_text = ''Bye'' \<rparr>] example_params [])
     = Inl (cannot_read_property ''undefined'' ''name'')"
proof -
  let ?chat = "[\<lparr> chat_name = ''Alice'', chat_text = ''Hi'' \<rparr>,
                \<lparr> chat_name = ''Bob'', chat_text = ''Bye'' \<rparr>]"
  let ?e = "example_env echo_provider None"
  note inst = recombine_precondition [of ?chat _ example_config ?e example_params "[]"]
  have n0: "show_nat 0 = ''0''" and n1: "show_nat (Suc 0) = ''1''"
    and n2: "show_nat 2 = ''2''"
    by code_simp+
  have valid: "list_all (\<lambda>(i, v). i < length ?chat) [(1, Str ''Adios''), (0, Str ''Hola'')]"
    by simp
  have w1: "recombine ?chat [(''chat_1'', Str ''Adios''), (''chat_0'', Str ''Hola'')]
      = Inr [\<lparr> chat_name = ''Bob'', chat_text = Str ''Adios'' \<rparr>,
             \<lparr> chat_name = ''Alice'', chat_text = Str ''Hola'' \<rparr>]"
  proof -
    have "recombine ?chat
        (map (\<lambda>(i, v). (''chat_'' @ show_nat i, v)) [(1, Str ''Adios''), (0, Str ''Hola'')])
      = Inr (map (\<lambda>(i, v). \<lparr> chat_name = chat_name (?chat ! i), chat_text = v \<rparr>)
          [(1, Str ''Adios''), (0, Str ''Hola'')])"
      using inst [of "[(1, Str ''Adios''), (0, Str ''Hola'')]"] valid by blast
    then show ?thesis by (simp add: n0 n1 del: recombine.simps)
  qed
  have w2: "recombine ?chat [(''chat_2'', Str ''Adios'')]
      = Inl (cannot_read_property ''undefined'' ''name'')"
  proof -
    have "length ?chat \<le> 2" by simp
    then have "recombine ?chat [(''chat_'' @ show_nat 2, Str ''Adios'')]
        = Inl (cannot_read_property ''undefined'' ''name'')"
      using inst [of "[]"] by blast
    then show ?thesis by (simp add: n2 del: recombine.simps)
  qed
  have raw: "localizeRaw example_config ?e [(''chat'', Arr (map message_value ?chat))]
        example_params []
      = (Inr [(''chat'', Arr (map message_value ?chat))],
         [i18n_request example_config (Some ''en'') ''es''
            [(''chat'', Arr (map message_value ?chat))] None ''wf1'' False])"
    by (simp add: localizeRaw_def extractPayloadChunks_chat Let_def localizeChunk_def
        localizeChunk_try_def signal_aborted_def example_env_def echo_provider_def
        success_response_def get_prop_def example_params_def report_progress_def
        object_assign_def obj_set_def array_index_def is_digit_def i18n_request_def)
  have w3: "fst (localizeChat example_config ?e ?chat example_params [])
      = Inl (cannot_read_property ''undefined'' ''name'')"
  proof -
    have "localizeChat example_config ?e ?chat example_params []
        = (Inl (cannot_read_property ''undefined'' ''name''),
           [i18n_request example_config (Some ''en'') ''es''
              [(''chat'', Arr (map message_value ?chat))] None ''wf1'' False])"
      using inst [of "[]"] raw by blast
    then show ?thesis by simp
  qed
  show ?thesis using w1 w2 w3 by simp
qed

section \<open>The document codec\<close>

subsection \<open>Places\<close>

lemma descend_snoc:
  "descend n (p @ [i])
     = (case descend n p of
          Some (Element t as cs) \<Rightarrow> if i < length cs then Some (cs ! i) else None
        | _ \<Rightarrow> None)"
proof (induction p arbitrary: n)
  case Nil
  then show ?case by (cases n) simp_all
next
  case (Cons j js)
  then show ?case by (cases n) simp_all
qed

lemma node_at_Cons:
  "node_at r (i # up)
     = (case node_at r up of
          Some (Element t as cs) \<Rightarrow> if i < length cs then Some (cs ! i) else None
        | _ \<Rightarrow> None)"
  by (simp add: node_at_def descend_snoc)

lemma node_at_child:
  "node_at r up = Some (Element t as cs) \<Longrightarrow> i < length cs \<Longrightarrow> node_at r (i # up) = Some (cs ! i)"
  by (simp add: node_at_Cons)

lemma ancestor_child:
  "node_at r up = Some (Element t as cs) \<Longrightarrow>
   has_unlocalizable_ancestor r (i # up) = (unlocalizable t \<or> has_unlocalizable_ancestor r up)"
  by (simp add: unlocalizable_def)

subsection \<open>The walk finds the targets\<close>

lemma enc_simp: "enc r up (q, a, v) = (getPath r (rev q @ up) a, Str v)"
  by (simp add: enc_def)

lemma add_entries_append: "add_entries acc (xs @ ys) = add_entries (add_entries acc xs) ys"
  by (simp add: add_entries_def)

lemma add_entries_Nil: "add_entries acc [] = acc"
  by (simp add: add_entries_def)

lemma extract_attributes_targets:
  "extract_attributes r up as names acc
     = add_entries acc
         (map (enc r up)
            (concat (map (\<lambda>a. case getAttribute as a of
                                 None \<Rightarrow> []
                               | Some v \<Rightarrow> if v \<noteq> [] then [([], Some a, v)] else []) names)))"
proof (induction names arbitrary: acc)
  case Nil
  then show ?case by (simp add: extract_attributes_def add_entries_def)
next
  case (Cons a names)
  have step: "extract_attributes r up as (a # names) acc
      = extract_attributes r up as names
          (case getAttribute as a of
             None \<Rightarrow> acc
           | Some v \<Rightarrow> if v \<noteq> [] then obj_set acc (getPath r up (Some a)) (Str v) else acc)"
    by (simp add: extract_attributes_def)
  show ?case
    unfolding step Cons.IH
    by (cases "getAttribute as a") (simp_all add: add_entries_def enc_simp)
qed

lemma processNode_blocked:
  "has_unlocalizable_ancestor r up \<Longrightarrow> processNode r up n acc = Inr acc"
  by (cases n) simp_all

lemma processChildren_blocked:
  "(\<And>j. has_unlocalizable_ancestor r (j # up)) \<Longrightarrow> processChildren r up i cs acc = Inr acc"
  by (induction cs arbitrary: i acc) (simp_all add: processNode_blocked)

lemma enc_child: "enc r up (i # q, a, v) = enc r (i # up) (q, a, v)"
  by (simp add: enc_simp)

lemma map_enc_child:
  "map (enc r up) (map (\<lambda>(q, a, v). (i # q, a, v)) ts) = map (enc r (i # up)) ts"
  by (induction ts) (auto simp: enc_child)

lemma map_enc_child_comp:
  "map (enc r up \<circ> (\<lambda>(q, y). (i # q, y))) ts = map (enc r (i # up)) ts"
  by (induction ts) (auto simp: enc_child)

lemma LOCALIZABLE_ATTRIBUTES_error: "LOCALIZABLE_ATTRIBUTES x = Inl err \<Longrightarrow> err = forEach_error"
  by (auto simp: LOCALIZABLE_ATTRIBUTES_def split: if_splits)

lemma not_filtered_ok: "\<not> filtered c \<Longrightarrow> forEach_ok c"
  by (cases c) simp_all

lemma walk_finds_targets:
  "(node_at r up = Some n \<longrightarrow> \<not> has_unlocalizable_ancestor r up
      \<longrightarrow> processNode r up n acc
            = (if forEach_ok n then Inr (add_entries acc (map (enc r up) (rel_targets n)))
               else Inl forEach_error))"
  "(\<forall>t as cs0. node_at r up = Some (Element t as cs0) \<longrightarrow> cs = drop i cs0 \<longrightarrow> i \<le> length cs0
      \<longrightarrow> \<not> has_unlocalizable_ancestor r up \<longrightarrow> \<not> unlocalizable t
      \<longrightarrow> processChildren r up i cs acc
            = (if list_all forEach_ok cs
               then Inr (add_entries acc (map (enc r up) (rel_children i cs)))
               else Inl forEach_error))"
proof (induction r up n acc and r up i cs acc rule: processNode_processChildren.induct)
  case (1 r up s acc)
  show ?case by (simp add: add_entries_def enc_simp)
next
  case (2 r up s acc)
  show ?case by (simp add: add_entries_def)
next
  case (3 r up t as cs acc)
  show ?case
  proof (intro impI)
    assume at: "node_at r up = Some (Element t as cs)"
      and nb: "\<not> has_unlocalizable_ancestor r up"
    show "processNode r up (Element t as cs) acc
        = (if forEach_ok (Element t as cs)
           then Inr (add_entries acc (map (enc r up) (rel_targets (Element t as cs))))
           else Inl forEach_error)"
    proof (cases "LOCALIZABLE_ATTRIBUTES (toLowerCase t)")
      case (Inl err)
      then have "err = forEach_error" by (rule LOCALIZABLE_ATTRIBUTES_error)
      then show ?thesis using nb Inl by simp
    next
      case (Inr names)
      let ?acc = "extract_attributes r up as names acc"
      have attrs: "?acc = add_entries acc (map (enc r up) (attr_targets t as))"
        by (simp add: extract_attributes_targets attr_targets_def Inr)
      show ?thesis
      proof (cases "unlocalizable t")
        case True
        have "processChildren r up 0 cs ?acc = Inr ?acc"
          by (rule processChildren_blocked) (simp only: ancestor_child [OF at] True simp_thms)
        then show ?thesis using nb Inr attrs True by simp
      next
        case False
        have "processChildren r up 0 cs ?acc
            = (if list_all forEach_ok cs
               then Inr (add_entries ?acc (map (enc r up) (rel_children 0 cs)))
               else Inl forEach_error)"
          using "3.IH" [OF nb Inr] at nb False by simp
        then show ?thesis using nb Inr attrs False by (simp add: add_entries_append)
      qed
    qed
  qed
next
  case (4 r up i acc)
  show ?case by (simp add: add_entries_def)
next
  case (5 r up i c cs acc)
  show ?case
  proof (intro allI impI)
    fix t as cs0
    assume at: "node_at r up = Some (Element t as cs0)"
      and dr: "c # cs = drop i cs0" and le: "i \<le> length cs0"
      and nb: "\<not> has_unlocalizable_ancestor r up" and nu: "\<not> unlocalizable t"
    have i: "i < length cs0"
      using dr le by (metis drop_all le_neq_implies_less list.distinct(1) order_refl)
    have c: "cs0 ! i = c" using dr i by (metis Cons_nth_drop_Suc list.inject)
    have rest: "cs = drop (i + 1) cs0"
      using dr i by (metis Cons_nth_drop_Suc Suc_eq_plus1 list.inject)
    have atc: "node_at r (i # up) = Some c" using node_at_child [OF at i] c by simp
    have nbc: "\<not> has_unlocalizable_ancestor r (i # up)"
      using ancestor_child [OF at] nb nu by simp
    have le': "i + 1 \<le> length cs0" using i by simp
    show "processChildren r up i (c # cs) acc
        = (if list_all forEach_ok (c # cs)
           then Inr (add_entries acc (map (enc r up) (rel_children i (c # cs))))
           else Inl forEach_error)"
    proof (cases "filtered c")
      case True
      have pc: "processNode r (i # up) c acc
          = (if forEach_ok c then Inr (add_entries acc (map (enc r (i # up)) (rel_targets c)))
             else Inl forEach_error)"
        using "5.IH"(1) [OF True] atc nbc by simp
      show ?thesis
      proof (cases "forEach_ok c")
        case ok: True
        have pc': "processNode r (i # up) c acc
            = Inr (add_entries acc (map (enc r (i # up)) (rel_targets c)))"
          using pc ok by simp
        have "processChildren r up (i + 1) cs
              (add_entries acc (map (enc r (i # up)) (rel_targets c)))
            = (if list_all forEach_ok cs
               then Inr (add_entries (add_entries acc (map (enc r (i # up)) (rel_targets c)))
                     (map (enc r up) (rel_children (i + 1) cs)))
               else Inl forEach_error)"
          using "5.IH"(2) [OF True pc'] at rest le' nb nu by blast
        then show ?thesis
          using True pc' ok by (simp add: add_entries_append map_enc_child_comp)
      next
        case False
        then show ?thesis using True pc by simp
      qed
    next
      case False
      have "processChildren r up (i + 1) cs acc
          = (if list_all forEach_ok cs
             then Inr (add_entries acc (map (enc r up) (rel_children (i + 1) cs)))
             else Inl forEach_error)"
        using "5.IH"(3) [OF False] at rest le' nb nu by blast
      then show ?thesis using False not_filtered_ok [OF False] by simp
    qed
  qed
qed

subsection \<open>The extracted map\<close>

lemma lower_root_tags: "toLowerCase ''HEAD'' = ''head''" "toLowerCase ''BODY'' = ''body''"
  by code_simp+

lemma root_not_unlocalizable: "\<not> unlocalizable ''HEAD''" "\<not> unlocalizable ''BODY''"
  by (simp_all add: unlocalizable_def lower_root_tags UNLOCALIZABLE_TAGS_def)

lemma processChildren_root:
  assumes "r = Element t as cs" and "\<not> unlocalizable t"
  shows "processChildren r [] 0 cs acc
      = (if list_all forEach_ok cs
         then Inr (add_entries acc (map (enc r []) (rel_children 0 cs)))
         else Inl forEach_error)"
proof -
  have "node_at r [] = Some (Element t as cs)" using assms(1) by (simp add: node_at_def)
  then show ?thesis
    using walk_finds_targets(2) [of r "[]" cs 0 acc] assms(2) by simp
qed

lemma extractContent_targets:
  "extractContent d
     = (if list_all forEach_ok (head_childNodes d) \<and> list_all forEach_ok (body_childNodes d)
        then Inr (add_entries (add_entries [] (head_targets d)) (body_targets d))
        else Inl forEach_error)"
  using processChildren_root [of "head_node d" "''HEAD''" "head_attributes d" "head_childNodes d"]
    processChildren_root [of "body_node d" "''BODY''" "body_attributes d" "body_childNodes d"]
  by (simp add: extractContent_def head_node_def body_node_def root_not_unlocalizable
      head_targets_def body_targets_def)

lemma set_obj_set: "set (obj_set ob k v) \<subseteq> insert (k, v) (set ob)"
proof (cases "k = ''__proto__''")
  case True
  then show ?thesis by (auto simp: obj_set_def)
next
  case np: False
  show ?thesis
  proof (cases "k \<in> fst ` set ob")
    case True
    then show ?thesis using np by (auto simp: obj_set_def split: if_splits)
  next
    case False
    show ?thesis
    proof (cases "array_index k")
      case None
      then show ?thesis using np False by (auto simp: obj_set_def)
    next
      case (Some n)
      have "set (takeWhile (\<lambda>(k', _). stays_before n k') ob) \<subseteq> set ob"
        and "set (dropWhile (\<lambda>(k', _). stays_before n k') ob) \<subseteq> set ob"
        by (auto dest: set_takeWhileD set_dropWhileD)
      then show ?thesis using np False Some by (auto simp: obj_set_def)
    qed
  qed
qed

lemma set_add_entries: "set (add_entries acc es) \<subseteq> set acc \<union> set es"
proof (induction es arbitrary: acc)
  case Nil
  then show ?case by (simp add: add_entries_def)
next
  case (Cons e es)
  obtain k v where e: "e = (k, v)" by (cases e)
  have "add_entries acc (e # es) = add_entries (obj_set acc k v) es"
    by (simp add: add_entries_def e)
  then show ?case using Cons.IH [of "obj_set acc k v"] set_obj_set [of acc k v] e by auto
qed


lemma unlocalizable_no_attributes: "unlocalizable t \<Longrightarrow> attr_targets t as = []"
  by (auto simp: unlocalizable_def UNLOCALIZABLE_TAGS_def attr_targets_def
      LOCALIZABLE_ATTRIBUTES_def)

lemma attr_targets_content:
  "(q, a, s) \<in> set (attr_targets t as) \<Longrightarrow>
   q = [] \<and> (\<exists>attr. a = Some attr \<and> getAttribute as attr = Some s)"
  by (auto simp: attr_targets_def split: option.splits if_splits)

lemma targets_outside:
  "(\<forall>q a s. (q, a, s) \<in> set (rel_targets n)
      \<longrightarrow> \<not> in_unlocalizable n q \<and> content_at n q a = Some s)"
  "(\<forall>q a s. (q, a, s) \<in> set (rel_children i cs)
      \<longrightarrow> (\<exists>j q'. q = (i + j) # q' \<and> j < length cs
             \<and> \<not> in_unlocalizable (cs ! j) q' \<and> content_at (cs ! j) q' a = Some s))"
proof (induction n and i cs rule: rel_targets_rel_children.induct)
  case (1 s)
  show ?case by (simp add: content_at_def)
next
  case (2 s)
  show ?case by simp
next
  case (3 t as cs)
  show ?case
  proof (intro allI impI)
    fix q a s
    assume m: "(q, a, s) \<in> set (rel_targets (Element t as cs))"
    show "\<not> in_unlocalizable (Element t as cs) q \<and> content_at (Element t as cs) q a = Some s"
    proof (cases "(q, a, s) \<in> set (attr_targets t as)")
      case True
      then have nu: "\<not> unlocalizable t" using unlocalizable_no_attributes [of t as] by auto
      from attr_targets_content [OF True] nu show ?thesis by (auto simp: content_at_def)
    next
      case False
      then have nu: "\<not> unlocalizable t" and mc: "(q, a, s) \<in> set (rel_children 0 cs)"
        using m by (auto split: if_splits)
      from "3.IH" [OF nu] mc obtain j q' where j: "q = j # q'" "j < length cs"
        "\<not> in_unlocalizable (cs ! j) q'" "content_at (cs ! j) q' a = Some s"
        by fastforce
      then show ?thesis using nu by (simp add: content_at_def)
    qed
  qed
next
  case (4 i)
  show ?case by simp
next
  case (5 i c cs)
  show ?case
  proof (intro allI impI)
    fix q a s
    assume m: "(q, a, s) \<in> set (rel_children i (c # cs))"
    show "\<exists>j q'. q = (i + j) # q' \<and> j < length (c # cs)
        \<and> \<not> in_unlocalizable ((c # cs) ! j) q' \<and> content_at ((c # cs) ! j) q' a = Some s"
    proof (cases "(q, a, s) \<in> set (rel_children (Suc i) cs)")
      case True
      with "5.IH"(2) obtain j q' where "q = (Suc i + j) # q'" "j < length cs"
        "\<not> in_unlocalizable (cs ! j) q'" "content_at (cs ! j) q' a = Some s"
        by blast
      then show ?thesis by (intro exI [of _ "Suc j"] exI [of _ q']) simp
    next
      case False
      then have f: "filtered c" and "(q, a, s) \<in> (\<lambda>(q, a, v). (i # q, a, v)) ` set (rel_targets c)"
        using m by (auto split: if_splits)
      then obtain q' where q': "q = i # q'" "(q', a, s) \<in> set (rel_targets c)" by auto
      with "5.IH"(1) [OF f] have "\<not> in_unlocalizable c q' \<and> content_at c q' a = Some s"
        by blast
      then show ?thesis using q' by (intro exI [of _ 0] exI [of _ q']) simp
    qed
  qed
qed

lemma root_targets_outside:
  assumes "\<not> unlocalizable t" and "e \<in> set (map (enc (Element t as cs) []) (rel_children 0 cs))"
  shows "\<exists>q a s. e = (getPath (Element t as cs) (rev q) a, Str s)
      \<and> \<not> in_unlocalizable (Element t as cs) q \<and> content_at (Element t as cs) q a = Some s"
proof -
  from assms(2) obtain q a s where m: "(q, a, s) \<in> set (rel_children 0 cs)"
    and e: "e = enc (Element t as cs) [] (q, a, s)"
    by auto
  from targets_outside(2) [of 0 cs] m obtain j q' where j: "q = j # q'" "j < length cs"
    "\<not> in_unlocalizable (cs ! j) q'" "content_at (cs ! j) q' a = Some s"
    by fastforce
  have "\<not> in_unlocalizable (Element t as cs) q \<and> content_at (Element t as cs) q a = Some s"
    using j assms(1) by (simp add: content_at_def)
  then show ?thesis using e by (auto simp: enc_simp)
qed

text \<open>
  Claim C7. Every entry of the extracted map is taken from a node of the head or of the body
  that is no \<^verbatim>\<open>script\<close> or \<^verbatim>\<open>style\<close> element and lies in none: its key is the path of that
  node and its value is the trimmed text of that text node or the value of that attribute. So
  no text and no attribute value is taken from a \<^verbatim>\<open>script\<close> or \<^verbatim>\<open>style\<close> element or from
  below one, and a body that holds only \<^verbatim>\<open><script>alert(1)</script>\<close> gives the empty map.
\<close>

theorem extractContent_skips_unlocalizable:
  assumes "extractContent d = Inr m"
  shows "(\<forall>entry \<in> set m. \<exists>r q a s.
            (r = head_node d \<or> r = body_node d)
            \<and> entry = (getPath r (rev q) a, Str s)
            \<and> \<not> in_unlocalizable r q \<and> content_at r q a = Some s)
    \<and> extractContent \<lparr> html_attributes = [], head_attributes = [], head_childNodes = [],
          body_attributes = [],
          body_childNodes = [Element ''SCRIPT'' [] [Text ''alert(1)'']] \<rparr> = Inr []"
proof
  have m: "m = add_entries (add_entries [] (head_targets d)) (body_targets d)"
    using assms by (simp add: extractContent_targets split: if_splits)
  show "\<forall>entry \<in> set m. \<exists>r q a s.
            (r = head_node d \<or> r = body_node d)
            \<and> entry = (getPath r (rev q) a, Str s)
            \<and> \<not> in_unlocalizable r q \<and> content_at r q a = Some s"
  proof
    fix entry assume "entry \<in> set m"
    then have "entry \<in> set (head_targets d) \<or> entry \<in> set (body_targets d)"
      using m set_add_entries [of "add_entries [] (head_targets d)" "body_targets d"]
        set_add_entries [of "[]" "head_targets d"]
      by auto
    then show "\<exists>r q a s. (r = head_node d \<or> r = body_node d)
            \<and> entry = (getPath r (rev q) a, Str s)
            \<and> \<not> in_unlocalizable r q \<and> content_at r q a = Some s"
    proof
      assume "entry \<in> set (head_targets d)"
      then show ?thesis
        using root_targets_outside [OF root_not_unlocalizable(1), of entry "head_attributes d"
            "head_childNodes d"]
        by (simp add: head_targets_def head_node_def) blast
    next
      assume "entry \<in> set (body_targets d)"
      then show ?thesis
        using root_targets_outside [OF root_not_unlocalizable(2), of entry "body_attributes d"
            "body_childNodes d"]
        by (simp add: body_targets_def body_node_def) blast
    qed
  qed
next
  have s: "toLowerCase ''SCRIPT'' = ''script''" by code_simp
  show "extractContent \<lparr> html_attributes = [], head_attributes = [], head_childNodes = [],
          body_attributes = [],
          body_childNodes = [Element ''SCRIPT'' [] [Text ''alert(1)'']] \<rparr> = Inr []"
    by (simp add: extractContent_targets head_targets_def body_targets_def unlocalizable_def s
        UNLOCALIZABLE_TAGS_def LOCALIZABLE_ATTRIBUTES_def attr_targets_def add_entries_def)
qed

text \<open>Claim C7 at the example page, whose script holds \<^verbatim>\<open>alert(1)\<close>.\<close>

theorem extractContent_skips_unlocalizable_witness:
  "extractContent example_document
     = Inr [(''head/0/0'', Str ''Test Page''),
            (''head/1#content'', Str ''Page description''),
            (''body/0'', Str ''standalone text''),
            (''body/1/0'', Str ''Read''),
            (''body/1/1#title'', Str ''Link title''),
            (''body/1/1/0'', Str ''a link''),
            (''body/1/2#alt'', Str ''Test image'')]
   \<and> (\<exists>r q a s. (r = head_node example_document \<or> r = body_node example_document)
          \<and> (''body/1/1/0'', Str ''a link'') = (getPath r (rev q) a, Str s)
          \<and> \<not> in_unlocalizable r q \<and> content_at r q a = Some s)"
proof -
  have h: "extractContent example_document
     = Inr [(''head/0/0'', Str ''Test Page''),
            (''head/1#content'', Str ''Page description''),
            (''body/0'', Str ''standalone text''),
            (''body/1/0'', Str ''Read''),
            (''body/1/1#title'', Str ''Link title''),
            (''body/1/1/0'', Str ''a link''),
            (''body/1/2#alt'', Str ''Test image'')]"
    by code_simp
  have "\<forall>entry \<in> set [(''head/0/0'', Str ''Test Page''),
            (''head/1#content'', Str ''Page description''),
            (''body/0'', Str ''standalone text''),
            (''body/1/0'', Str ''Read''),
            (''body/1/1#title'', Str ''Link title''),
            (''body/1/1/0'', Str ''a link''),
            (''body/1/2#alt'', Str ''Test image'')]. \<exists>r q a s.
            (r = head_node example_document \<or> r = body_node example_document)
            \<and> entry = (getPath r (rev q) a, Str s)
            \<and> \<not> in_unlocalizable r q \<and> content_at r q a = Some s"
    by (rule conjunct1 [OF extractContent_skips_unlocalizable [OF h]])
  then have "\<exists>r q a s. (r = head_node example_document \<or> r = body_node example_document)
          \<and> (''body/1/1/0'', Str ''a link'') = (getPath r (rev q) a, Str s)
          \<and> \<not> in_unlocalizable r q \<and> content_at r q a = Some s"
    by (rule bspec) simp
  with h show ?thesis by (rule conjI)
qed

subsection \<open>Paths that do not resolve\<close>

text \<open>
  Claim C6 states that an entry whose path cannot be resolved, also when an index fails at an
  intermediate step, is skipped and modifies no node. The body of the example page has three
  filtered child nodes. A path whose last index selects no node is skipped: \<^verbatim>\<open>body/7\<close> leaves
  the document as it is. In \<^verbatim>\<open>body/5/0\<close> the index 5 selects no node, \<^verbatim>\<open>current\<close> becomes
  \<^verbatim>\<open>null\<close>, the loop goes on with the index 0 from the same parent, and the entry overwrites
  the first child of the body.
\<close>

theorem apply_entry_intermediate_failure:
  "js_nth (siblings_at (body_node example_document) []) (parseInt ''5'') = None
   \<and> apply_entry (example_env echo_provider None) example_document (''body/7'', Str ''X'')
       = Inr example_document
   \<and> apply_entry (example_env echo_provider None) example_document (''body/5/0'', Str ''X'')
       = Inr (example_document\<lparr> body_childNodes :=
                (body_childNodes example_document)[0 := Text ''X''] \<rparr>)
   \<and> apply_entry (example_env echo_provider None) example_document (''body/5/0'', Str ''X'')
       \<noteq> Inr example_document"
  by code_simp

subsection \<open>Filtered positions\<close>

lemma index_of_append:
  "x \<notin> set xs \<Longrightarrow> index_of x (xs @ x # ys) = Some (length xs)"
  by (induction xs) auto

lemma kept_indices_split:
  assumes "i < length cs" and "filtered (cs ! i)"
  shows "kept_indices cs
      = filter (\<lambda>j. filtered (cs ! j)) [0..<i] @ i # filter (\<lambda>j. filtered (cs ! j)) [Suc i..<length cs]"
proof -
  have "[0..<length cs] = [0..<i] @ i # [Suc i..<length cs]"
    using assms(1) by (metis le0 less_imp_le_nat upt_add_eq_append upt_conv_Cons le_add_diff_inverse)
  then show ?thesis using assms(2) by (simp add: kept_indices_def)
qed

lemma index_of_kept:
  assumes "i < length cs" and "filtered (cs ! i)"
  shows "index_of i (kept_indices cs) = Some (fpos cs i)"
proof -
  have "i \<notin> set (filter (\<lambda>j. filtered (cs ! j)) [0..<i])" by simp
  then show ?thesis
    unfolding kept_indices_split [OF assms] fpos_def
    by (simp add: index_of_append)
qed

lemma nth_kept:
  assumes "i < length cs" and "filtered (cs ! i)"
  shows "fpos cs i < length (kept_indices cs)" and "kept_indices cs ! fpos cs i = i"
  unfolding kept_indices_split [OF assms] fpos_def by (simp_all add: nth_append)

lemma js_nth_kept:
  assumes "i < length cs" and "filtered (cs ! i)"
  shows "js_nth (kept_indices cs) (parseInt (show_nat (fpos cs i))) = Some i"
  using nth_kept [OF assms] by (simp add: parseInt_show_nat js_nth_def)

subsection \<open>The path of a place, and its resolution\<close>

lemma kept_path_snoc:
  "kept_path n (q @ [i])
     = (kept_path n q
        \<and> (case descend n q of
              Some (Element t as cs) \<Rightarrow> i < length cs \<and> filtered (cs ! i)
            | _ \<Rightarrow> False))"
proof (induction q arbitrary: n)
  case Nil
  then show ?case by (cases n) simp_all
next
  case (Cons j q)
  then show ?case by (cases n) auto
qed

lemma path_indices_snoc:
  "kept_path n q \<Longrightarrow> descend n q = Some (Element t as cs) \<Longrightarrow>
   path_indices n (q @ [i]) = path_indices n q @ [fpos cs i]"
proof (induction q arbitrary: n)
  case Nil
  then show ?case by simp
next
  case (Cons j q)
  then show ?case by (cases n) simp_all
qed

lemma siblings_at_element:
  "node_at r up = Some (Element t as cs) \<Longrightarrow> siblings_at r up = kept_indices cs"
  by (simp add: siblings_at_def)

lemma getPath_loop_kept: "kept_path r q \<Longrightarrow> getPath_loop r (rev q) acc = path_indices r q @ acc"
proof (induction q arbitrary: acc rule: rev_induct)
  case Nil
  then show ?case by (cases r) simp_all
next
  case (snoc i q)
  from snoc.prems obtain t as cs where kq: "kept_path r q"
    and at: "descend r q = Some (Element t as cs)" and i: "i < length cs" "filtered (cs ! i)"
    by (auto simp: kept_path_snoc split: option.splits node.splits)
  have sib: "siblings_at r (rev q) = kept_indices cs"
    by (rule siblings_at_element) (simp add: node_at_def at)
  have "getPath_loop r (rev (q @ [i])) acc = getPath_loop r (rev q) (fpos cs i # acc)"
    by (simp add: sib index_of_kept [OF i])
  also have "\<dots> = path_indices r q @ fpos cs i # acc" by (rule snoc.IH [OF kq])
  also have "\<dots> = path_indices r (q @ [i]) @ acc"
    by (simp add: path_indices_snoc [OF kq at])
  finally show ?case .
qed

lemma kept_path_element: "kept_path n q \<Longrightarrow> q \<noteq> [] \<Longrightarrow> \<exists>t as cs. n = Element t as cs"
  by (cases n; cases q) simp_all

lemma resolve_kept:
  "descend r q1 = Some n1 \<Longrightarrow> kept_path n1 q2 \<Longrightarrow> q2 \<noteq> [] \<Longrightarrow>
   resolve_loop r (map show_nat (path_indices n1 q2)) (rev q1) cur = Some (rev (q1 @ q2))"
proof (induction q2 arbitrary: q1 n1 cur)
  case Nil
  then show ?case by simp
next
  case (Cons i q2)
  from kept_path_element [OF Cons.prems(2)] obtain t as cs where n1: "n1 = Element t as cs"
    by auto
  have i: "i < length cs" "filtered (cs ! i)" and kq: "kept_path (cs ! i) q2"
    using Cons.prems(2) n1 by simp_all
  have at: "node_at r (rev q1) = Some (Element t as cs)"
    using Cons.prems(1) n1 by (simp add: node_at_def)
  have sib: "siblings_at r (rev q1) = kept_indices cs" by (rule siblings_at_element [OF at])
  have child: "node_at r (i # rev q1) = Some (cs ! i)" by (rule node_at_child [OF at i(1)])
  have dchild: "descend r (q1 @ [i]) = Some (cs ! i)" using child by (simp add: node_at_def)
  show ?case
  proof (cases "q2 = []")
    case True
    then show ?thesis
      using n1 by (simp add: sib js_nth_kept [OF i] Let_def)
  next
    case False
    from kept_path_element [OF kq False] obtain t' as' cs' where c: "cs ! i = Element t' as' cs'"
      by auto
    have "resolve_loop r (map show_nat (path_indices n1 (i # q2))) (rev q1) cur
        = resolve_loop r (map show_nat (path_indices (cs ! i) q2)) (rev (q1 @ [i]))
            (Some (i # rev q1))"
      using n1 by (simp add: sib js_nth_kept [OF i] Let_def child c)
    also have "\<dots> = Some (rev ((q1 @ [i]) @ q2))"
      by (rule Cons.IH [OF dchild kq False])
    finally show ?thesis by simp
  qed
qed

subsection \<open>Resolution depends on the shape only\<close>

lemma trim_x: "trim ''x'' = ''x''"
  by (simp add: trim_def is_ws_def)

lemma trim_Nil: "trim [] = []"
  by (simp add: trim_def)

lemma filtered_shape: "filtered (shape n) = filtered n"
  by (cases n) (simp_all add: trim_x trim_Nil)

lemma descend_shape: "descend (shape n) p = map_option shape (descend n p)"
proof (induction p arbitrary: n)
  case Nil
  then show ?case by simp
next
  case (Cons i p)
  then show ?case by (cases n) simp_all
qed

lemma node_at_shape: "node_at (shape r) up = map_option shape (node_at r up)"
  by (simp add: node_at_def descend_shape)

lemma kept_indices_shape: "kept_indices (map shape cs) = kept_indices cs"
  unfolding kept_indices_def
  by (rule filter_cong) (simp_all add: filtered_shape)

lemma childNodes_shape: "childNodes (shape n) = map shape (childNodes n)"
  by (cases n) simp_all

lemma siblings_at_shape: "siblings_at (shape r) up = siblings_at r up"
  by (cases "node_at r up")
    (simp_all add: siblings_at_def node_at_shape childNodes_shape kept_indices_shape)

lemma element_at_shape:
  "(case node_at (shape r) c of Some (Element t as cs) \<Rightarrow> x | _ \<Rightarrow> y)
     = (case node_at r c of Some (Element t as cs) \<Rightarrow> x | _ \<Rightarrow> y)"
proof (cases "node_at r c")
  case None
  then show ?thesis by (simp add: node_at_shape)
next
  case (Some n)
  then show ?thesis by (cases n) (simp_all add: node_at_shape)
qed

lemma resolve_loop_shape: "resolve_loop (shape r) idxs parent cur = resolve_loop r idxs parent cur"
proof (induction idxs arbitrary: parent cur)
  case Nil
  then show ?case by simp
next
  case (Cons index idxs)
  show ?case
    by (simp add: Let_def siblings_at_shape Cons.IH element_at_shape cong: option.case_cong)
qed

lemma resolve_loop_same_shape:
  "shape r' = shape r \<Longrightarrow> resolve_loop r' idxs parent cur = resolve_loop r idxs parent cur"
  by (metis resolve_loop_shape)

subsection \<open>Keys\<close>

lemma join_Cons: "xs \<noteq> [] \<Longrightarrow> join sep (x # xs) = x @ sep @ join sep xs"
  by (cases xs) simp_all

lemma set_join: "set (join sep xs) \<subseteq> set sep \<union> \<Union> (set ` set xs)"
  by (induction sep xs rule: join.induct) auto

lemma split_join:
  "xs \<noteq> [] \<Longrightarrow> \<forall>x \<in> set xs. c \<notin> set x \<Longrightarrow> split_on c (join [c] xs) = xs"
proof (induction xs)
  case Nil
  then show ?case by simp
next
  case (Cons x xs)
  show ?case
  proof (cases "xs = []")
    case True
    then show ?thesis using Cons.prems by (simp add: split_on_no_sep)
  next
    case False
    have "split_on c (join [c] (x # xs)) = split_on c (x @ c # join [c] xs)"
      by (simp add: join_Cons [OF False])
    also have "\<dots> = x # split_on c (join [c] xs)"
      by (rule split_on_append_sep) (use Cons.prems in simp)
    also have "\<dots> = x # xs" using Cons.IH [OF False] Cons.prems by simp
    finally show ?thesis .
  qed
qed

lemma digits_no_sep:
  assumes "\<not> is_digit c"
  shows "\<forall>x \<in> set (map show_nat ns). c \<notin> set x"
  using show_nat_no_char [OF assms] by simp

lemma join_digits_no_char:
  assumes "\<not> is_digit c" and "c \<noteq> CHR ''/''"
  shows "c \<notin> set (join ''/'' (map show_nat ns))"
  using set_join [of "''/''" "map show_nat ns"] digits_no_sep [OF assms(1), of ns] assms(2)
  by auto

lemma getPath_kept:
  assumes "kept_path r q" and "toLowerCase (nodeName r) = rt" and "rt \<noteq> []"
  shows "getPath r (rev q) a
      = rt @ CHR ''/'' # join ''/'' (map show_nat (path_indices r q)) @ key_suffix a"
  using assms getPath_loop_kept [OF assms(1), of "[]"]
  by (cases a) (simp_all add: getPath_def key_suffix_def Let_def)

lemma path_indices_nonempty: "kept_path r q \<Longrightarrow> q \<noteq> [] \<Longrightarrow> path_indices r q \<noteq> []"
  by (cases r; cases q) simp_all

text \<open>What \<^verbatim>\<open>apply_entry\<close> reads from such a key.\<close>

lemma split_hash_key:
  assumes "CHR ''#'' \<notin> set rt" and "\<forall>x. a = Some x \<longrightarrow> x \<noteq> [] \<and> CHR ''#'' \<notin> set x"
  shows "split_on CHR ''#'' (rt @ CHR ''/'' # join ''/'' (map show_nat ns) @ key_suffix a)
      = (rt @ CHR ''/'' # join ''/'' (map show_nat ns)) # (case a of None \<Rightarrow> [] | Some x \<Rightarrow> [x])"
proof -
  have nb: "CHR ''#'' \<notin> set (rt @ CHR ''/'' # join ''/'' (map show_nat ns))"
    using assms(1) join_digits_no_char [of "CHR ''#''" ns] by (simp add: is_digit_def)
  show ?thesis
  proof (cases a)
    case None
    then show ?thesis using split_on_no_sep [OF nb] by (simp add: key_suffix_def)
  next
    case (Some x)
    then have x: "x \<noteq> []" "CHR ''#'' \<notin> set x" using assms(2) by simp_all
    have "split_on CHR ''#'' ((rt @ CHR ''/'' # join ''/'' (map show_nat ns)) @ CHR ''#'' # x)
        = (rt @ CHR ''/'' # join ''/'' (map show_nat ns)) # split_on CHR ''#'' x"
      by (rule split_on_append_sep [OF nb])
    then show ?thesis using Some x by (simp add: key_suffix_def split_on_no_sep)
  qed
qed

lemma split_slash_key:
  assumes "CHR ''/'' \<notin> set rt" and "ns \<noteq> []"
  shows "split_on CHR ''/'' (rt @ CHR ''/'' # join ''/'' (map show_nat ns)) = rt # map show_nat ns"
proof -
  have "split_on CHR ''/'' (rt @ CHR ''/'' # join ''/'' (map show_nat ns))
      = rt # split_on CHR ''/'' (join ''/'' (map show_nat ns))"
    by (rule split_on_append_sep [OF assms(1)])
  moreover have "split_on CHR ''/'' (join [CHR ''/''] (map show_nat ns)) = map show_nat ns"
    by (rule split_join) (use assms(2) digits_no_sep [of "CHR ''/''" ns] in \<open>simp_all add: is_digit_def\<close>)
  ultimately show ?thesis by simp
qed

subsection \<open>One entry\<close>

lemma root_tag_facts:
  "root_tag h \<noteq> []" "CHR ''#'' \<notin> set (root_tag h)" "CHR ''/'' \<notin> set (root_tag h)"
  "(root_tag h = ''head'') = h"
  by (simp_all add: root_tag_def)

lemma nodeName_root: "toLowerCase (nodeName (root_of h d)) = root_tag h"
  by (simp add: root_of_def root_tag_def head_node_def body_node_def lower_root_tags)

lemma descend_same_shape:
  assumes "shape r' = shape r"
  shows "map_option shape (descend r' q) = map_option shape (descend r q)"
  using assms by (metis descend_shape)

lemma shape_Element: "shape m = shape (Element t as cs) \<Longrightarrow> \<exists>t' as' cs'. m = Element t' as' cs'"
  by (cases m) simp_all

lemma shape_Text: "shape m = shape (Text s) \<Longrightarrow> \<exists>s'. m = Text s'"
  by (cases m) simp_all

lemma apply_entry_target:
  assumes tk: "target_ok e r (q, a, v)"
    and nm: "toLowerCase (nodeName r) = root_tag h"
    and sh: "shape (root_of h d') = shape r"
  shows "apply_entry e d' (getPath r (rev q) a, Str v)
      = Inr (put_root h d' (update_at (root_of h d') q (target_update a v)))"
proof -
  let ?ns = "path_indices r q"
  let ?base = "root_tag h @ CHR ''/'' # join ''/'' (map show_nat ?ns)"
  let ?K = "root_tag h @ CHR ''/'' # join ''/'' (map show_nat ?ns) @ key_suffix a"
  let ?r' = "if h then head_node d' else body_node d'"
  have q: "q \<noteq> []" and kp: "kept_path r q" using tk by (simp_all add: target_ok_def)
  have ns: "?ns \<noteq> []" by (rule path_indices_nonempty [OF kp q])
  have key: "getPath r (rev q) a = ?K"
    by (rule getPath_kept [OF kp nm root_tag_facts(1)])
  have attr: "\<forall>x. a = Some x \<longrightarrow> x \<noteq> [] \<and> CHR ''#'' \<notin> set x"
    using tk by (auto simp: target_ok_def split: option.splits node.splits)
  have hash: "split_on CHR ''#'' ?K = ?base # (case a of None \<Rightarrow> [] | Some x \<Rightarrow> [x])"
    by (rule split_hash_key [OF root_tag_facts(2) attr])
  have slash: "split_on CHR ''/'' ?base = root_tag h # map show_nat ?ns"
    by (rule split_slash_key [OF root_tag_facts(3) ns])
  have attribute: "nth_opt (?base # (case a of None \<Rightarrow> [] | Some x \<Rightarrow> [x])) 1 = a"
    by (cases a) (simp_all add: nth_opt_def)
  have r': "?r' = root_of h d'" by (simp add: root_of_def)
  have res: "resolve_loop (root_of h d') (map show_nat ?ns) [] (Some []) = Some (rev q)"
    using resolve_loop_same_shape [OF sh, of "map show_nat ?ns" "[]" "Some []"]
      resolve_kept [of r "[]" r q "Some []"] kp q
    by simp
  have dsh: "map_option shape (descend (root_of h d') q) = map_option shape (descend r q)"
    by (rule descend_same_shape [OF sh])
  have gen: "apply_entry e d' (getPath r (rev q) a, Str v)
      = (case a of
           Some x \<Rightarrow>
             if x \<noteq> [] then
               (case node_at (root_of h d') (rev q) of
                  Some (Element t as cs) \<Rightarrow>
                    (case setAttribute_error e x of
                       Some err \<Rightarrow> Inl err
                     | None \<Rightarrow>
                         Inr (put_root h d'
                                (update_at (root_of h d') q (\<lambda>n. setAttribute n x (toString (Str v))))))
                | _ \<Rightarrow> Inl (JsError ''TypeError'' ''current.setAttribute is not a function''))
             else Inr (put_root h d'
                         (update_at (root_of h d') q
                            (\<lambda>n. set_textContent n (textContent_string (Str v)))))
         | None \<Rightarrow>
             Inr (put_root h d'
                    (update_at (root_of h d') q (\<lambda>n. set_textContent n (textContent_string (Str v))))))"
    unfolding apply_entry_def Let_def fst_conv snd_conv key hash attribute list.case slash
      list.sel root_tag_facts(4) r' res option.case rev_rev_ident
    by (rule refl)
  show ?thesis
  proof (cases a)
    case None
    have "target_update None v = (\<lambda>n. set_textContent n (textContent_string (Str v)))"
      by (simp add: target_update_def textContent_string_def fun_eq_iff)
    then show ?thesis using gen None by simp
  next
    case (Some x)
    from tk Some obtain t as cs where el: "descend r q = Some (Element t as cs)"
      and x: "x \<noteq> []" and ok: "setAttribute_error e x = None"
      by (auto simp: target_ok_def split: option.splits node.splits)
    from dsh el obtain m where m: "descend (root_of h d') q = Some m"
      "shape m = shape (Element t as cs)"
      by (cases "descend (root_of h d') q") auto
    from shape_Element [OF m(2)] obtain t' as' cs' where m': "m = Element t' as' cs'" by auto
    have at: "node_at (root_of h d') (rev q) = Some (Element t' as' cs')"
      using m(1) m' by (simp add: node_at_def)
    have "target_update (Some x) v = (\<lambda>n. setAttribute n x (toString (Str v)))"
      by (simp add: target_update_def fun_eq_iff)
    then show ?thesis using gen Some at x ok by simp
  qed
qed

subsection \<open>All entries of one root\<close>

lemma shape_update_at:
  "(\<And>m. descend n q = Some m \<Longrightarrow> shape (f m) = shape m) \<Longrightarrow> shape (update_at n q f) = shape n"
proof (induction q arbitrary: n)
  case Nil
  then show ?case by simp
next
  case (Cons i q)
  show ?case
  proof (cases n)
    case (Element t as cs)
    show ?thesis
    proof (cases "i < length cs")
      case True
      have "shape (update_at (cs ! i) q f) = shape (cs ! i)"
        by (rule Cons.IH) (use Cons.prems Element True in simp)
      then have "map shape (cs[i := update_at (cs ! i) q f]) = map shape cs"
        using True by (simp add: map_update list_update_same_conv)
      then show ?thesis using Element True by simp
    next
      case False
      then show ?thesis using Element by simp
    qed
  next
    case (Text s)
    then show ?thesis by simp
  next
    case (Comment s)
    then show ?thesis by simp
  qed
qed

lemma kept_path_filtered:
  "kept_path n q \<Longrightarrow> q \<noteq> [] \<Longrightarrow> descend n q = Some m \<Longrightarrow> filtered m"
proof (induction q arbitrary: n)
  case Nil
  then show ?case by simp
next
  case (Cons i q)
  from kept_path_element [OF Cons.prems(1,2)] obtain t as cs where n: "n = Element t as cs"
    by auto
  show ?case
  proof (cases "q = []")
    case True
    then show ?thesis using Cons.prems n by simp
  next
    case False
    then show ?thesis using Cons.IH [of "cs ! i"] Cons.prems n by simp
  qed
qed

lemma target_preserves_shape:
  assumes tk: "target_ok e r (q, a, v)" and sh: "shape r' = shape r"
    and at: "descend r' q = Some m"
  shows "shape (target_update a v m) = shape m"
proof -
  have q: "q \<noteq> []" and kp: "kept_path r q" using tk by (simp_all add: target_ok_def)
  have dsh: "map_option shape (descend r' q) = map_option shape (descend r q)"
    by (rule descend_same_shape [OF sh])
  show ?thesis
  proof (cases a)
    case None
    from tk None obtain s where s: "descend r q = Some (Text s)" and v: "trim v \<noteq> []"
      by (auto simp: target_ok_def split: option.splits node.splits)
    have "filtered (Text s)" by (rule kept_path_filtered [OF kp q s])
    then have ts: "trim s \<noteq> []" by simp
    have "shape m = shape (Text s)" using dsh at s by simp
    then obtain s' where m: "m = Text s'" and "trim s' \<noteq> []"
      using ts by (cases m) (auto split: if_splits)
    then show ?thesis using None v by (simp add: target_update_def)
  next
    case (Some x)
    from tk Some obtain t as cs where el: "descend r q = Some (Element t as cs)"
      by (auto simp: target_ok_def split: option.splits node.splits)
    have "shape m = shape (Element t as cs)" using dsh at el by simp
    from shape_Element [OF this] obtain t' as' cs' where "m = Element t' as' cs'" by auto
    then show ?thesis using Some by (simp add: target_update_def)
  qed
qed

lemma update_at_root:
  "q \<noteq> [] \<Longrightarrow> \<exists>cs'. update_at (Element t as cs) q f = Element t as cs'"
  by (cases q) auto

lemma root_of_cases: "\<exists>as cs. root_of h d = Element (if h then ''HEAD'' else ''BODY'') as cs"
  by (simp add: root_of_def head_node_def body_node_def)

lemma root_of_put_root:
  "root_of h (put_root h d (Element (if h then ''HEAD'' else ''BODY'') as cs))
     = Element (if h then ''HEAD'' else ''BODY'') as cs"
  by (simp add: root_of_def head_node_def body_node_def)

lemma put_root_put_root:
  "put_root h (put_root h d (Element t as cs)) (Element t' as' cs') = put_root h d (Element t' as' cs')"
  by simp

lemma put_root_root_of: "put_root h d (root_of h d) = d"
  by (simp add: root_of_def head_node_def body_node_def)

lemma apply_targets_Cons:
  "apply_targets n ((q, a, v) # ts) = apply_targets (update_at n q (target_update a v)) ts"
  by (simp add: apply_targets_def)

lemma apply_targets_root:
  "\<forall>t \<in> set ts. fst t \<noteq> [] \<Longrightarrow> \<exists>cs'. apply_targets (Element t as cs) ts = Element t as cs'"
proof (induction ts arbitrary: cs)
  case Nil
  then show ?case by (simp add: apply_targets_def)
next
  case (Cons x ts)
  obtain q a v where x: "x = (q, a, v)" by (cases x)
  then have "q \<noteq> []" using Cons.prems by simp
  from update_at_root [OF this] obtain cs' where
    "update_at (Element t as cs) q (target_update a v) = Element t as cs'"
    by blast
  then show ?case using Cons.IH [of cs'] Cons.prems x by (simp add: apply_targets_Cons)
qed

lemma apply_entries_targets:
  assumes "\<forall>t \<in> set ts. target_ok e r t"
    and "toLowerCase (nodeName r) = root_tag h"
    and "shape (root_of h d') = shape r"
  shows "apply_entries e d' (map (enc r []) ts) = Inr (put_root h d' (apply_targets (root_of h d') ts))"
  using assms
proof (induction ts arbitrary: d')
  case Nil
  then show ?case by (simp add: apply_targets_def put_root_root_of)
next
  case (Cons x ts)
  obtain q a v where x: "x = (q, a, v)" by (cases x)
  have tk: "target_ok e r (q, a, v)" using Cons.prems(1) x by simp
  have q: "q \<noteq> []" using tk by (simp add: target_ok_def)
  let ?tag = "if h then ''HEAD'' else ''BODY''"
  obtain as cs where r': "root_of h d' = Element ?tag as cs" using root_of_cases by blast
  obtain cs' where u: "update_at (root_of h d') q (target_update a v) = Element ?tag as cs'"
    using update_at_root [OF q, of ?tag as cs] r' by auto
  let ?d'' = "put_root h d' (Element ?tag as cs')"
  have one: "apply_entry e d' (enc r [] x) = Inr ?d''"
    using apply_entry_target [OF tk Cons.prems(2,3)] u by (simp add: x enc_simp)
  have root'': "root_of h ?d'' = Element ?tag as cs'" by (rule root_of_put_root)
  have "shape (Element ?tag as cs') = shape (root_of h d')"
    unfolding u [symmetric]
    by (rule shape_update_at) (rule target_preserves_shape [OF tk Cons.prems(3)])
  then have sh'': "shape (root_of h ?d'') = shape r" using root'' Cons.prems(3) by simp
  have tks: "\<forall>t \<in> set ts. target_ok e r t" using Cons.prems(1) by simp
  have rest: "apply_entries e ?d'' (map (enc r []) ts)
      = Inr (put_root h ?d'' (apply_targets (root_of h ?d'') ts))"
    by (rule Cons.IH [OF tks Cons.prems(2) sh''])
  have "\<forall>t \<in> set ts. fst t \<noteq> []" using tks by (auto simp: target_ok_def)
  from apply_targets_root [OF this] obtain cs'' where
    fin: "apply_targets (Element ?tag as cs') ts = Element ?tag as cs''"
    by blast
  have "apply_entries e d' (map (enc r []) (x # ts))
      = Inr (put_root h ?d'' (apply_targets (Element ?tag as cs') ts))"
    using one rest root'' by simp
  also have "\<dots> = Inr (put_root h d' (apply_targets (Element ?tag as cs') ts))"
    unfolding fin by (simp only: put_root_put_root)
  also have "\<dots> = Inr (put_root h d' (apply_targets (root_of h d') (x # ts)))"
    by (simp add: x apply_targets_Cons u)
  finally show ?case .
qed

subsection \<open>The updates of all targets trim the localizable text\<close>

lemma set_attr_same: "map_of as k = Some v \<Longrightarrow> set_attr as k v = as"
  by (induction as) (auto split: if_splits)

lemma apply_targets_append:
  "apply_targets n (xs @ ys) = apply_targets (apply_targets n xs) ys"
  by (simp add: apply_targets_def)

lemma apply_targets_Nil: "apply_targets n [] = n"
  by (simp add: apply_targets_def)

lemma apply_attr_targets:
  "\<forall>x \<in> set ts. \<exists>a v. x = ([], Some a, v) \<and> getAttribute as a = Some v \<Longrightarrow>
   apply_targets (Element t as cs) ts = Element t as cs"
proof (induction ts)
  case Nil
  then show ?case by (simp add: apply_targets_Nil)
next
  case (Cons x ts)
  from Cons.prems obtain a v where x: "x = ([], Some a, v)" and g: "getAttribute as a = Some v"
    by auto
  have "update_at (Element t as cs) [] (target_update (Some a) v) = Element t as cs"
    using g by (simp add: target_update_def getAttribute_def set_attr_same)
  then show ?case using Cons x by (simp add: apply_targets_Cons)
qed

lemma apply_targets_child:
  "i < length cs \<Longrightarrow>
   apply_targets (Element t as cs) (map (\<lambda>(q, a, v). (i # q, a, v)) ts)
     = Element t as (cs[i := apply_targets (cs ! i) ts])"
proof (induction ts arbitrary: cs)
  case Nil
  then show ?case by (simp add: apply_targets_Nil)
next
  case (Cons x ts)
  obtain q a v where x: "x = (q, a, v)" by (cases x)
  let ?c = "update_at (cs ! i) q (target_update a v)"
  have "apply_targets (Element t as cs) (map (\<lambda>(q, a, v). (i # q, a, v)) (x # ts))
      = apply_targets (Element t as (cs[i := ?c])) (map (\<lambda>(q, a, v). (i # q, a, v)) ts)"
    using Cons.prems by (simp add: x apply_targets_Cons)
  also have "\<dots> = Element t as ((cs[i := ?c])[i := apply_targets ((cs[i := ?c]) ! i) ts])"
    by (rule Cons.IH) (use Cons.prems in simp)
  also have "\<dots> = Element t as (cs[i := apply_targets (cs ! i) (x # ts)])"
    using Cons.prems by (simp add: x apply_targets_Cons)
  finally show ?case .
qed

lemma trim_not_filtered: "\<not> filtered c \<Longrightarrow> trim_localizable c = c"
  by (cases c) simp_all

lemma apply_targets_trim:
  "apply_targets n (rel_targets n) = trim_localizable n"
  "(\<forall>t as pre. i = length pre
      \<longrightarrow> apply_targets (Element t as (pre @ cs)) (rel_children i cs)
            = Element t as (pre @ map trim_localizable cs))"
proof (induction n and i cs rule: rel_targets_rel_children.induct)
  case (1 s)
  show ?case by (simp add: apply_targets_def target_update_def)
next
  case (2 s)
  show ?case by (simp add: apply_targets_def)
next
  case (3 t as cs)
  have attrs: "apply_targets (Element t as cs) (attr_targets t as) = Element t as cs"
  proof (rule apply_attr_targets, rule ballI)
    fix x assume x: "x \<in> set (attr_targets t as)"
    obtain q a v where "x = (q, a, v)" by (cases x)
    then show "\<exists>a v. x = ([], Some a, v) \<and> getAttribute as a = Some v"
      using attr_targets_content [of q a v t as] x by auto
  qed
  show ?case
  proof (cases "unlocalizable t")
    case True
    then show ?thesis using attrs by simp
  next
    case False
    have "apply_targets (Element t as ([] @ cs)) (rel_children 0 cs)
        = Element t as ([] @ map trim_localizable cs)"
      by (rule "3.IH" [OF False, rule_format]) simp
    then show ?thesis using False attrs by (simp add: apply_targets_append)
  qed
next
  case (4 i)
  show ?case by (simp add: apply_targets_Nil)
next
  case (5 i c cs)
  show ?case
  proof (intro allI impI)
    fix t as and pre :: "node list"
    assume i: "i = length pre"
    let ?first = "if filtered c then map (\<lambda>(q, a, v). (i # q, a, v)) (rel_targets c) else []"
    have first: "apply_targets (Element t as (pre @ c # cs)) ?first
        = Element t as (pre @ trim_localizable c # cs)"
    proof (cases "filtered c")
      case True
      have "apply_targets (Element t as (pre @ c # cs))
            (map (\<lambda>(q, a, v). (i # q, a, v)) (rel_targets c))
          = Element t as ((pre @ c # cs)[i := apply_targets ((pre @ c # cs) ! i) (rel_targets c)])"
        by (rule apply_targets_child) (simp add: i)
      then show ?thesis using True "5.IH"(1) [OF True] i by simp
    next
      case False
      then show ?thesis by (simp add: apply_targets_Nil trim_not_filtered)
    qed
    have "apply_targets (Element t as ((pre @ [trim_localizable c]) @ cs)) (rel_children (Suc i) cs)
        = Element t as ((pre @ [trim_localizable c]) @ map trim_localizable cs)"
      by (rule "5.IH"(2) [rule_format]) (simp add: i)
    then show "apply_targets (Element t as (pre @ c # cs)) (rel_children i (c # cs))
        = Element t as (pre @ map trim_localizable (c # cs))"
      using first by (simp add: apply_targets_append)
  qed
qed

lemma apply_root_targets:
  "apply_targets (Element t as cs) (rel_children 0 cs) = Element t as (map trim_localizable cs)"
  using apply_targets_trim(2) [of 0 cs, rule_format, of "[]" t as] by simp

subsection \<open>Trimming twice\<close>

lemma dropWhile_id: "xs = [] \<or> \<not> P (hd xs) \<Longrightarrow> dropWhile P xs = xs"
  by (cases xs) auto

lemma trim_trim: "trim (trim s) = trim s"
proof -
  define u where "u = dropWhile is_ws s"
  define w where "w = dropWhile is_ws (rev u)"
  have t: "trim s = rev w" by (simp add: trim_def u_def w_def)
  have u_hd: "u = [] \<or> \<not> is_ws (hd u)" unfolding u_def using hd_dropWhile [of is_ws s] by blast
  have w_hd: "w = [] \<or> \<not> is_ws (hd w)" unfolding w_def using hd_dropWhile [of is_ws "rev u"] by blast
  have front: "dropWhile is_ws (rev w) = rev w"
  proof (cases "w = []")
    case True
    then show ?thesis by simp
  next
    case False
    have split: "rev u = takeWhile is_ws (rev u) @ w" by (simp add: w_def)
    have une: "u \<noteq> []" using False w_def by auto
    have "last w = last (rev u)" using False split by (metis last_appendR)
    also have "\<dots> = hd u" using une by (simp add: last_rev)
    finally have "hd (rev w) = hd u" using False by (simp add: hd_rev)
    then show ?thesis using u_hd une by (intro dropWhile_id) simp
  qed
  have "trim (rev w) = rev (dropWhile is_ws (rev (rev w)))"
    unfolding trim_def front by (rule refl)
  also have "\<dots> = rev w" using dropWhile_id [of w is_ws] w_hd by simp
  finally show ?thesis using t by simp
qed

subsection \<open>Every target can be addressed\<close>

lemma attr_targets_names:
  "(q, Some x, v) \<in> set (attr_targets t as) \<Longrightarrow>
   x \<in> set [''content'', ''alt'', ''placeholder'', ''title'']"
  by (auto simp: attr_targets_def LOCALIZABLE_ATTRIBUTES_def split: option.splits if_splits)

lemma target_ok_iff: "target_ok e r (q, a, v) = (q \<noteq> [] \<and> target_at e r (q, a, v))"
  by (simp add: target_ok_def target_at_def)

lemma target_at_child:
  "i < length cs \<Longrightarrow>
   target_at e (Element t as cs) (i # q, a, v) = (filtered (cs ! i) \<and> target_at e (cs ! i) (q, a, v))"
  by (cases a) (simp_all add: target_at_def)

lemma targets_at:
  assumes names: "\<forall>x \<in> set [''content'', ''alt'', ''placeholder'', ''title''].
      setAttribute_error e x = None"
  shows "(\<forall>tg \<in> set (rel_targets n). target_at e n tg)"
    and "(\<forall>tg \<in> set (rel_children i cs). \<exists>j q a v. tg = ((i + j) # q, a, v) \<and> j < length cs
          \<and> filtered (cs ! j) \<and> target_at e (cs ! j) (q, a, v))"
proof (induction n and i cs rule: rel_targets_rel_children.induct)
  case (1 s)
  show ?case by (simp add: target_at_def trim_trim)
next
  case (2 s)
  show ?case by simp
next
  case (3 t as cs)
  show ?case
  proof
    fix tg assume m: "tg \<in> set (rel_targets (Element t as cs))"
    obtain q a v where tg: "tg = (q, a, v)" by (cases tg)
    show "target_at e (Element t as cs) tg"
    proof (cases "tg \<in> set (attr_targets t as)")
      case True
      from attr_targets_content [of q a v t as] True tg obtain x where
        x: "q = []" "a = Some x" by auto
      have "x \<in> set [''content'', ''alt'', ''placeholder'', ''title'']"
        using attr_targets_names [of q x v t as] True tg x by simp
      then have "x \<noteq> [] \<and> CHR ''#'' \<notin> set x \<and> setAttribute_error e x = None"
        using names by auto
      then show ?thesis using tg x by (simp add: target_at_def)
    next
      case False
      then have nu: "\<not> unlocalizable t" and mc: "tg \<in> set (rel_children 0 cs)"
        using m by (auto split: if_splits)
      from "3.IH" [OF nu] mc obtain j q' a' v' where j: "tg = (j # q', a', v')" "j < length cs"
        "filtered (cs ! j)" "target_at e (cs ! j) (q', a', v')"
        by fastforce
      then show ?thesis by (simp add: target_at_child)
    qed
  qed
next
  case (4 i)
  show ?case by simp
next
  case (5 i c cs)
  show ?case
  proof
    fix tg assume m: "tg \<in> set (rel_children i (c # cs))"
    show "\<exists>j q a v. tg = ((i + j) # q, a, v) \<and> j < length (c # cs)
        \<and> filtered ((c # cs) ! j) \<and> target_at e ((c # cs) ! j) (q, a, v)"
    proof (cases "tg \<in> set (rel_children (Suc i) cs)")
      case True
      with "5.IH"(2) obtain j q a v where "tg = ((Suc i + j) # q, a, v)" "j < length cs"
        "filtered (cs ! j)" "target_at e (cs ! j) (q, a, v)"
        by blast
      then show ?thesis
        by (intro exI [of _ "Suc j"] exI [of _ q] exI [of _ a] exI [of _ v]) simp
    next
      case False
      then have f: "filtered c"
        and "tg \<in> (\<lambda>(q, a, v). (i # q, a, v)) ` set (rel_targets c)"
        using m by (auto split: if_splits)
      then obtain q a v where q: "tg = (i # q, a, v)" "(q, a, v) \<in> set (rel_targets c)"
        by auto
      with "5.IH"(1) [OF f] have "target_at e c (q, a, v)" by blast
      then show ?thesis
        using q f by (intro exI [of _ 0] exI [of _ q] exI [of _ a] exI [of _ v]) simp
    qed
  qed
qed

lemma root_targets_ok:
  assumes "\<forall>x \<in> set [''content'', ''alt'', ''placeholder'', ''title''].
      setAttribute_error e x = None"
  shows "\<forall>tg \<in> set (rel_children 0 cs). target_ok e (Element t as cs) tg"
proof
  fix tg assume "tg \<in> set (rel_children 0 cs)"
  with targets_at(2) [OF assms, of 0 cs] obtain j q a v where
    j: "tg = (j # q, a, v)" "j < length cs" "filtered (cs ! j)" "target_at e (cs ! j) (q, a, v)"
    by fastforce
  then have "target_at e (Element t as cs) (j # q, a, v)" by (simp add: target_at_child)
  then show "target_ok e (Element t as cs) tg"
    by (simp add: target_ok_iff j(1))
qed

subsection \<open>The keys of the targets are distinct\<close>

lemma attr_targets_short: "attr_targets t as = [] \<or> (\<exists>x. attr_targets t as = [x])"
  by (auto simp: attr_targets_def LOCALIZABLE_ATTRIBUTES_def split: option.splits)

lemma target_place_simp: "target_place (q, a, v) = (q, a)"
  by (simp add: target_place_def)

lemma target_place_child:
  "map target_place (map (\<lambda>(q, a, v). (i # q, a, v)) ts)
     = map (\<lambda>(q, a). (i # q, a)) (map target_place ts)"
  by (induction ts) (auto simp: target_place_simp)

lemma distinct_targets:
  "distinct (map target_place (rel_targets n))"
  "distinct (map target_place (rel_children i cs))
     \<and> (\<forall>tg \<in> set (rel_children i cs). \<exists>j q a v. tg = ((i + j) # q, a, v))"
proof (induction n and i cs rule: rel_targets_rel_children.induct)
  case (1 s)
  show ?case by simp
next
  case (2 s)
  show ?case by simp
next
  case (3 t as cs)
  have attrs: "distinct (map target_place (attr_targets t as))"
    using attr_targets_short [of t as] by auto
  show ?case
  proof (cases "unlocalizable t")
    case True
    then show ?thesis using attrs by simp
  next
    case False
    have kids: "distinct (map target_place (rel_children 0 cs))"
      and heads: "\<forall>tg \<in> set (rel_children 0 cs). \<exists>j q a v. tg = ((0 + j) # q, a, v)"
      using "3.IH" [OF False] by simp_all
    have "\<forall>x \<in> set (attr_targets t as). \<forall>y \<in> set (rel_children 0 cs).
        target_place x \<noteq> target_place y"
    proof (intro ballI)
      fix x y
      assume x: "x \<in> set (attr_targets t as)" and y: "y \<in> set (rel_children 0 cs)"
      obtain q a v where xq: "x = (q, a, v)" by (cases x)
      then have "q = []" using attr_targets_content [of q a v t as] x by simp
      moreover from heads y obtain j q' a' v' where "y = (j # q', a', v')" by fastforce
      ultimately show "target_place x \<noteq> target_place y" using xq by (simp add: target_place_simp)
    qed
    then have "set (map target_place (attr_targets t as))
        \<inter> set (map target_place (rel_children 0 cs)) = {}"
      by fastforce
    then show ?thesis using False attrs kids by simp
  qed
next
  case (4 i)
  show ?case by simp
next
  case (5 i c cs)
  let ?first = "if filtered c then map (\<lambda>(q, a, v). (i # q, a, v)) (rel_targets c) else []"
  have rest: "distinct (map target_place (rel_children (Suc i) cs))"
    and rest_heads: "\<forall>tg \<in> set (rel_children (Suc i) cs). \<exists>j q a v. tg = ((Suc i + j) # q, a, v)"
    using "5.IH"(2) by simp_all
  have first: "distinct (map target_place ?first)"
  proof (cases "filtered c")
    case True
    have "inj_on (\<lambda>(q, a). (i # q, a :: string option)) (set (map target_place (rel_targets c)))"
      by (auto simp: inj_on_def target_place_simp)
    moreover have "distinct (map target_place (rel_targets c))" by (rule "5.IH"(1) [OF True])
    ultimately have "distinct (map (\<lambda>(q, a). (i # q, a)) (map target_place (rel_targets c)))"
      by (metis distinct_map)
    then show ?thesis using True by (simp only: target_place_child if_True)
  next
    case False
    then show ?thesis by simp
  qed
  have first_heads: "\<forall>tg \<in> set ?first. \<exists>q a v. tg = (i # q, a, v)" by auto
  have "\<forall>x \<in> set ?first. \<forall>y \<in> set (rel_children (Suc i) cs). target_place x \<noteq> target_place y"
  proof (intro ballI)
    fix x y
    assume x: "x \<in> set ?first" and y: "y \<in> set (rel_children (Suc i) cs)"
    from first_heads x obtain q a v where "x = (i # q, a, v)" by blast
    moreover from rest_heads y obtain j q' a' v' where "y = ((Suc i + j) # q', a', v')" by blast
    ultimately show "target_place x \<noteq> target_place y" by (simp add: target_place_simp)
  qed
  then have disj: "set (map target_place ?first)
      \<inter> set (map target_place (rel_children (Suc i) cs)) = {}"
    by fastforce
  have heads: "\<forall>tg \<in> set (rel_children i (c # cs)). \<exists>j q a v. tg = ((i + j) # q, a, v)"
  proof
    fix tg assume "tg \<in> set (rel_children i (c # cs))"
    then have "tg \<in> set ?first \<or> tg \<in> set (rel_children (Suc i) cs)" by auto
    then show "\<exists>j q a v. tg = ((i + j) # q, a, v)"
    proof
      assume "tg \<in> set ?first"
      with first_heads obtain q a v where "tg = (i # q, a, v)" by blast
      then show ?thesis by (intro exI [of _ 0] exI [of _ q] exI [of _ a] exI [of _ v]) simp
    next
      assume "tg \<in> set (rel_children (Suc i) cs)"
      with rest_heads obtain j q a v where "tg = ((Suc i + j) # q, a, v)" by blast
      then show ?thesis by (intro exI [of _ "Suc j"] exI [of _ q] exI [of _ a] exI [of _ v]) simp
    qed
  qed
  have "distinct (map target_place (rel_children i (c # cs)))"
    using first rest disj by simp
  then show ?case using heads by blast
qed

end
